theory Spec2Isabelle
  imports Main
begin

section \<open>Strings of the platform\<close>

text \<open>
  Strings are byte lists. The operations below are the string methods the sources call,
  on ASCII text: \<open>toUpperCase\<close> maps the letters a..z only, \<open>trim\<close> strips the six
  ASCII white-space characters, and the regular expression's \<open>.\<close> excludes line feed
  and carriage return.
\<close>

definition nl :: string where
  "nl = [CHR 0x0A]"

definition upper_char :: "char \<Rightarrow> char" where
  "upper_char c =
     (case map_of (zip ''abcdefghijklmnopqrstuvwxyz'' ''ABCDEFGHIJKLMNOPQRSTUVWXYZ'') c of
        Some u \<Rightarrow> u
      | None \<Rightarrow> c)"

definition toUpperCase :: "string \<Rightarrow> string" where
  "toUpperCase s = map upper_char s"

fun join :: "string \<Rightarrow> string list \<Rightarrow> string" where
  "join sep [] = []"
| "join sep [x] = x"
| "join sep (x # y # ys) = x @ sep @ join sep (y # ys)"

fun split_on :: "char \<Rightarrow> string \<Rightarrow> string list" where
  "split_on sep [] = [[]]"
| "split_on sep (c # cs) =
     (if c = sep then [] # split_on sep cs
      else (case split_on sep cs of [] \<Rightarrow> [[c]] | x # xs \<Rightarrow> (c # x) # xs))"

definition startsWith :: "string \<Rightarrow> string \<Rightarrow> bool" where
  "startsWith s p = (take (length p) s = p)"

fun str_includes :: "string \<Rightarrow> string \<Rightarrow> bool" where
  "str_includes [] p = (p = [])"
| "str_includes (c # cs) p = (startsWith (c # cs) p \<or> str_includes cs p)"

definition is_space :: "char \<Rightarrow> bool" where
  "is_space c = (c \<in> set [CHR 0x09, CHR 0x0A, CHR 0x0B, CHR 0x0C, CHR 0x0D, CHR 0x20])"

definition trim :: "string \<Rightarrow> string" where
  "trim s = rev (dropWhile is_space (rev (dropWhile is_space s)))"

definition is_digit :: "char \<Rightarrow> bool" where
  "is_digit c = (let n = (of_char c :: nat) in 48 \<le> n \<and> n \<le> 57)"

definition parseInt :: "string \<Rightarrow> nat" where
  "parseInt ds = foldl (\<lambda>n c. 10 * n + (of_char c - 48)) 0 ds"

definition digit_char :: "nat \<Rightarrow> char" where
  "digit_char d = ''0123456789'' ! d"

function string_of_nat :: "nat \<Rightarrow> string" where
  "string_of_nat n =
     (if n < 10 then [digit_char n] else string_of_nat (n div 10) @ [digit_char (n mod 10)])"
  by pat_completeness auto
termination
  by (relation "measure id") auto

declare string_of_nat.simps [simp del]

section \<open>SourceClass: the caller's class from the call stack\<close>

text \<open>
  \<open>detectorRegex\<close> is \<^verbatim>\<open>/at (.+?) \((.+?):(\d+):(\d+)\)/\<close> as
  \<^verbatim>\<open>String.prototype.match\<close> runs it: the leftmost start, the first group as
  short as possible, then the second as short as possible. A run of digits that must be
  followed by a colon or a closing parenthesis is the whole run, so the two numeric
  groups need no backtracking.
\<close>

definition dot_char :: "char \<Rightarrow> bool" where
  "dot_char c = (c \<noteq> CHR 0x0A \<and> c \<noteq> CHR 0x0D)"

definition match_tail :: "string \<Rightarrow> (string \<times> string) option" where
  "match_tail s =
     (case s of
        [] \<Rightarrow> None
      | c # r \<Rightarrow>
          if c \<noteq> CHR '':'' then None
          else let d1 = takeWhile is_digit r; r1 = dropWhile is_digit r in
            if d1 = [] then None
            else (case r1 of
                    [] \<Rightarrow> None
                  | c1 # r2 \<Rightarrow>
                      if c1 \<noteq> CHR '':'' then None
                      else let d2 = takeWhile is_digit r2; r3 = dropWhile is_digit r2 in
                        if d2 = [] then None
                        else (case r3 of
                                [] \<Rightarrow> None
                              | c3 # _ \<Rightarrow> if c3 = CHR '')'' then Some (d1, d2) else None)))"

fun lazy_path :: "string \<Rightarrow> string \<Rightarrow> (string \<times> string \<times> string) option" where
  "lazy_path acc [] = None"
| "lazy_path acc (c # r) =
     (case match_tail (c # r) of
        Some (l, col) \<Rightarrow> Some (acc, l, col)
      | None \<Rightarrow> if dot_char c then lazy_path (acc @ [c]) r else None)"

definition match_path :: "string \<Rightarrow> (string \<times> string \<times> string) option" where
  "match_path s =
     (case s of [] \<Rightarrow> None | c # r \<Rightarrow> if dot_char c then lazy_path [c] r else None)"

fun lazy_ident :: "string \<Rightarrow> string \<Rightarrow> (string \<times> string \<times> string \<times> string) option" where
  "lazy_ident acc [] = None"
| "lazy_ident acc (c # r) =
     (case (if startsWith (c # r) '' ('' then match_path (drop 2 (c # r)) else None) of
        Some (p, l, col) \<Rightarrow> Some (acc, p, l, col)
      | None \<Rightarrow> if dot_char c then lazy_ident (acc @ [c]) r else None)"

definition match_at :: "string \<Rightarrow> (string \<times> string \<times> string \<times> string) option" where
  "match_at s =
     (if startsWith s ''at '' then
        (case drop 3 s of [] \<Rightarrow> None | c # r \<Rightarrow> if dot_char c then lazy_ident [c] r else None)
      else None)"

fun detectorRegex :: "string \<Rightarrow> (string \<times> string \<times> string \<times> string) option" where
  "detectorRegex [] = None"
| "detectorRegex (c # r) =
     (case match_at (c # r) of Some m \<Rightarrow> Some m | None \<Rightarrow> detectorRegex r)"

record frame =
  identifier' :: string
  path :: string
  line :: nat

text \<open>
  \<open>parsed\<close> is the array \<^verbatim>\<open>stack\<close> after \<^verbatim>\<open>shift\<close> and
  \<^verbatim>\<open>reverse\<close>, mapped to frames; \<open>named\<close> is the array of that name. The
  argument \<open>cwd\<close> is \<^verbatim>\<open>path.resolve(process.cwd())\<close> and \<open>stackText\<close> the
  text \<^verbatim>\<open>Error.captureStackTrace\<close> stored.
\<close>

definition parsed :: "string \<Rightarrow> frame list" where
  "parsed stackText =
     (let stack = List.map_filter detectorRegex
                    (filter (\<lambda>ln. startsWith ln ''at'') (map trim (split_on (CHR 0x0A) stackText)))
      in map (\<lambda>(i, p, l, c). \<lparr>identifier' = i, path = p, line = parseInt l\<rparr>) (rev (tl stack)))"

definition named :: "string \<Rightarrow> string \<Rightarrow> frame list" where
  "named cwd stackText =
     (let local = filter (\<lambda>f. startsWith (path f) cwd \<and> \<not> str_includes (path f) ''node_modules'')
                    (parsed stackText)
      in filter (\<lambda>f. \<not> str_includes (identifier' f) ''<anonymous>'' \<and>
                      \<not> startsWith (identifier' f) ''Object.'' \<and>
                      \<not> startsWith (identifier' f) ''Module.'') local)"

definition className :: "string \<Rightarrow> string" where
  "className ident =
     (case split_on (CHR ''.'') ident of
        [] \<Rightarrow> []
      | seg # _ \<Rightarrow>
          (let separated = split_on (CHR '' '') seg;
               separated = (if length separated > 1 then tl separated else separated)
           in case separated of [] \<Rightarrow> [] | tok # _ \<Rightarrow> tok))"

definition getCallerClass :: "string \<Rightarrow> string \<Rightarrow> string" where
  "getCallerClass cwd stackText =
     (case sort_key line (named cwd stackText) of
        [] \<Rightarrow> ''Unknown''
      | sortedAndSelected # _ \<Rightarrow> className (identifier' sortedAndSelected))"

section \<open>Values and their formatting\<close>

text \<open>
  A logged value is a primitive (or a function), given by the text \<^verbatim>\<open>String(value)\<close>
  yields for it, or a reference to an object on the heap. Objects are held by address, so
  a \<^verbatim>\<open>Map\<close> or \<^verbatim>\<open>Set\<close> can contain itself. \<open>PlainObj\<close> is any other non-null
  object; its content is read only by \<^verbatim>\<open>JSON.stringify\<close>, a built-in taken as the
  parameter \<open>stringify\<close>: \<open>None\<close> when it throws, otherwise the text that the
  template literal interpolates.

  The recursion of \<^verbatim>\<open>formatValue\<close> through \<^verbatim>\<open>formatMap\<close> and
  \<^verbatim>\<open>formatSet\<close> is bounded by the call stack only: the first argument of
  \<open>formatValue\<close> is the nesting depth the stack still allows, and running out of it is
  the engine's \<^verbatim>\<open>RangeError\<close> (maximum call stack size exceeded).
\<close>

type_synonym addr = nat

datatype jsval = Prim string | Ref addr

datatype jsobj = MapObj "(jsval \<times> jsval) list" | SetObj "jsval list" | PlainObj

datatype js_error = LoggerClosed | StackOverflow | InvalidArrayLength | TypeError

definition esc :: string where
  "esc = [CHR 0x1B]"

definition reset :: string where
  "reset = esc @ ''[0m''"

definition colors :: "(string \<times> string) list" where
  "colors =
     [(''error'', esc @ ''[31m''),
      (''info'', esc @ ''[32m''),
      (''warn'', esc @ ''[33m''),
      (''debug'', esc @ ''[34m''),
      (''reset'', esc @ ''[0m''),
      (''mapKey'', esc @ ''[36m''),
      (''mapValue'', esc @ ''[35m''),
      (''setValue'', esc @ ''[33m''),
      (''objectKey'', esc @ ''[90m''),
      (''objectValue'', esc @ ''[92m'')]"

definition color_of :: "string \<Rightarrow> string" where
  "color_of k = (case map_of colors k of Some c \<Rightarrow> c | None \<Rightarrow> [])"

fun collect :: "('a \<Rightarrow> js_error + 'b) \<Rightarrow> 'a list \<Rightarrow> js_error + 'b list" where
  "collect f [] = Inr []"
| "collect f (x # xs) =
     (case f x of
        Inl e \<Rightarrow> Inl e
      | Inr y \<Rightarrow> (case collect f xs of Inl e \<Rightarrow> Inl e | Inr ys \<Rightarrow> Inr (y # ys)))"

text \<open>
  \<open>formatMap\<close> and \<open>formatSet\<close> take the formatter they call back
  (\<^verbatim>\<open>this.formatValue\<close>) as their first argument.
\<close>

definition formatMap :: "(jsval \<Rightarrow> js_error + string) \<Rightarrow> (jsval \<times> jsval) list \<Rightarrow> js_error + string" where
  "formatMap fv m =
     (case collect (\<lambda>(key, val).
               case fv key of
                 Inl e \<Rightarrow> Inl e
               | Inr k \<Rightarrow>
                   (case fv val of
                      Inl e \<Rightarrow> Inl e
                    | Inr v \<Rightarrow>
                        Inr (color_of ''mapKey'' @ k @ reset @ '' => '' @
                             color_of ''mapValue'' @ v @ reset))) m of
        Inl e \<Rightarrow> Inl e
      | Inr entries \<Rightarrow>
          Inr (''Map('' @ string_of_nat (length m) @ '') { '' @ join '', '' entries @ '' }''))"

definition formatSet :: "(jsval \<Rightarrow> js_error + string) \<Rightarrow> jsval list \<Rightarrow> js_error + string" where
  "formatSet fv st =
     (case collect (\<lambda>val.
               case fv val of
                 Inl e \<Rightarrow> Inl e
               | Inr v \<Rightarrow> Inr (color_of ''setValue'' @ v @ reset)) st of
        Inl e \<Rightarrow> Inl e
      | Inr vals \<Rightarrow>
          Inr (''Set('' @ string_of_nat (length st) @ '') { '' @ join '', '' vals @ '' }''))"

primrec formatValue ::
  "nat \<Rightarrow> (addr \<Rightarrow> jsobj) \<Rightarrow> (addr \<Rightarrow> string option) \<Rightarrow> jsval \<Rightarrow> js_error + string" where
  "formatValue 0 h stringify v = Inl StackOverflow"
| "formatValue (Suc depth) h stringify v =
     (case v of
        Prim s \<Rightarrow> Inr s
      | Ref a \<Rightarrow>
          (case h a of
             MapObj m \<Rightarrow> formatMap (formatValue depth h stringify) m
           | SetObj st \<Rightarrow> formatSet (formatValue depth h stringify) st
           | PlainObj \<Rightarrow>
               (case stringify a of Some t \<Rightarrow> Inr t | None \<Rightarrow> Inr ''[Circular]'')))"

section \<open>Logger\<close>

text \<open>
  The record holds the fields of the class and the channels they refer to:
  \<open>stdout\<close> is \<^verbatim>\<open>process.stdout\<close>, \<open>other\<close> is the stream passed as
  \<^verbatim>\<open>options.writeStream\<close> when it is not \<^verbatim>\<open>process.stdout\<close>, and
  \<open>writeStream\<close> says which of the two the field of that name refers to. A stream is
  the list of chunks written to it so far and whether \<^verbatim>\<open>end()\<close> was called;
  a write appends a chunk and does not throw, and a write after \<^verbatim>\<open>end()\<close> is
  dropped. \<open>index\<close> is a JavaScript number: a natural number or \<open>NaN\<close>, and
  \<open>buffer\<close> a JavaScript array: a store beyond its length extends it.
\<close>

datatype sink = ProcessStdout | OtherStream

datatype jsnum = Num nat | NaN

record stream =
  chunks :: "string list"
  ended :: bool

record logger =
  source :: string
  buffer :: "string option list"
  bufferSize :: nat
  flushInterval :: nat
  isFlushing :: bool
  writeStream :: sink
  index :: jsnum
  isClosed :: bool
  highResTimestamps :: bool
  inmediate :: bool
  fileStreams :: "(string \<times> stream) list"
  stdout :: stream
  other :: stream

text \<open>
  What a call reads from its surroundings: \<open>clock\<close> is one reading of the two time
  sources of \<^verbatim>\<open>formatMessage\<close>; \<open>runtime\<close> is the heap the logged values live
  on, the nesting depth the stack allows, \<^verbatim>\<open>JSON.stringify\<close>,
  \<^verbatim>\<open>process.env.NODE_ENV\<close>, and the text of the members that every object
  inherits (\<^verbatim>\<open>toString\<close>, \<^verbatim>\<open>constructor\<close>, ...), which
  \<^verbatim>\<open>Logger.colors[level]\<close> finds when \<open>level\<close> names one of them.
\<close>

record clock =
  hrtime :: nat
  isoString :: string

record runtime =
  heap :: "addr \<Rightarrow> jsobj"
  stackDepth :: nat
  stringify :: "addr \<Rightarrow> string option"
  NODE_ENV :: "string option"
  inherited :: "string \<Rightarrow> string option"

definition end_stream :: "stream \<Rightarrow> stream" where
  "end_stream st = st\<lparr>ended := True\<rparr>"

definition write_stream :: "string \<Rightarrow> stream \<Rightarrow> stream" where
  "write_stream txt st = (if ended st then st else st\<lparr>chunks := chunks st @ [txt]\<rparr>)"

definition array_get :: "'a option list \<Rightarrow> nat \<Rightarrow> 'a option" where
  "array_get xs i = (if i < length xs then xs ! i else None)"

definition array_set :: "'a option list \<Rightarrow> nat \<Rightarrow> 'a option \<Rightarrow> 'a option list" where
  "array_set xs i v =
     (if i < length xs then xs[i := v] else xs @ replicate (i - length xs) None @ [v])"

definition timestamp :: "logger \<Rightarrow> clock \<Rightarrow> string" where
  "timestamp s clk = (if highResTimestamps s then string_of_nat (hrtime clk) else isoString clk)"

definition formatMessage ::
  "runtime \<Rightarrow> logger \<Rightarrow> clock \<Rightarrow> string \<Rightarrow> jsval \<Rightarrow> bool \<Rightarrow> js_error + string" where
  "formatMessage rt s clk level message isConsole =
     (let color = (case map_of colors level of
                     Some c \<Rightarrow> c
                   | None \<Rightarrow> (case inherited rt level of Some m \<Rightarrow> m | None \<Rightarrow> reset))
      in case formatValue (stackDepth rt) (heap rt) (stringify rt) message of
           Inl e \<Rightarrow> Inl e
         | Inr formattedMessage \<Rightarrow>
             if isConsole then
               Inr (''['' @ timestamp s clk @ ''] '' @ color @ ''['' @ toUpperCase level @ ''] '' @
                    source s @ reset @ '': '' @ formattedMessage)
             else
               Inr (''['' @ timestamp s clk @ ''] ['' @ toUpperCase level @ ''] '' @
                    source s @ '': '' @ formattedMessage))"

function flush_loop ::
  "nat \<Rightarrow> nat \<Rightarrow> string option list \<Rightarrow> string list \<Rightarrow> string option list \<times> string list" where
  "flush_loop i n buf batch =
     (if i < n then
        (case array_get buf i of
           None \<Rightarrow> flush_loop (i + 1) n buf batch
         | Some m \<Rightarrow>
             if m = [] then flush_loop (i + 1) n buf batch
             else flush_loop (i + 1) n (array_set buf i None) (batch @ [m]))
      else (buf, batch))"
  by pat_completeness auto
termination
  by (relation "measure (\<lambda>(i, n, buf, batch). n - i)") auto

declare flush_loop.simps [simp del]

text \<open>What \<^verbatim>\<open>if (this.buffer[i])\<close> tests: the slot holds a text that is not empty.\<close>

definition truthy :: "string option \<Rightarrow> bool" where
  "truthy x = (case x of None \<Rightarrow> False | Some m \<Rightarrow> m \<noteq> [])"

definition write_console :: "string \<Rightarrow> logger \<Rightarrow> logger" where
  "write_console txt s =
     (case writeStream s of
        ProcessStdout \<Rightarrow> s\<lparr>stdout := write_stream txt (stdout s)\<rparr>
      | OtherStream \<Rightarrow> s\<lparr>other := write_stream txt (other s)\<rparr>)"

definition flush :: "logger \<Rightarrow> logger" where
  "flush s =
     (if isFlushing s \<or> isClosed s then s
      else
        let s1 = s\<lparr>isFlushing := True\<rparr>;
            (buf, batch) = flush_loop 0 (bufferSize s1) (buffer s1) [];
            s2 = s1\<lparr>buffer := buf\<rparr>;
            s3 = (if batch \<noteq> [] then write_console (join nl batch @ nl) s2 else s2)
        in s3\<lparr>index := Num 0, isFlushing := False\<rparr>)"

definition store :: "string option list \<Rightarrow> jsnum \<Rightarrow> string \<Rightarrow> string option list" where
  "store buf ix v = (case ix of Num i \<Rightarrow> array_set buf i (Some v) | NaN \<Rightarrow> buf)"

definition advance :: "jsnum \<Rightarrow> nat \<Rightarrow> jsnum" where
  "advance ix n =
     (case ix of NaN \<Rightarrow> NaN | Num i \<Rightarrow> if n = 0 then NaN else Num ((i + 1) mod n))"

definition update_stream :: "string \<Rightarrow> stream \<Rightarrow> (string \<times> stream) list \<Rightarrow> (string \<times> stream) list" where
  "update_stream k st fs = map (\<lambda>(k', st'). if k' = k then (k', st) else (k', st')) fs"

text \<open>
  A call returns its outcome and the logger as the call left it: what was written before
  an exception stays written.
\<close>

definition log ::
  "runtime \<Rightarrow> clock \<Rightarrow> clock \<Rightarrow> string \<Rightarrow> jsval \<Rightarrow> logger \<Rightarrow> (js_error + bool) \<times> logger" where
  "log rt c1 c2 level message s =
     (if isClosed s then (Inl LoggerClosed, s)
      else
        case formatMessage rt s c1 level message True of
          Inl e \<Rightarrow> (Inl e, s)
        | Inr formattedMessage \<Rightarrow>
            (case formatMessage rt s c2 level message False of
               Inl e \<Rightarrow> (Inl e, s)
             | Inr formattedMessageForFile \<Rightarrow>
                 (let s1 =
                        (if inmediate s \<or> level = ''warn'' \<or> level = ''error'' then
                           s\<lparr>stdout := write_stream (formattedMessage @ nl) (stdout s)\<rparr>
                         else
                           (let s' = s\<lparr>buffer := store (buffer s) (index s) formattedMessage\<rparr>;
                                s'' = s'\<lparr>index := advance (index s') (bufferSize s')\<rparr>
                            in (if index s'' = Num 0 then flush s'' else s'')))
                  in (case map_of (fileStreams s1) level of
                        None \<Rightarrow> (Inl TypeError, s1)
                      | Some st \<Rightarrow>
                          (Inr True,
                           s1\<lparr>fileStreams :=
                                 update_stream level
                                   (write_stream (formattedMessageForFile @ nl) st)
                                   (fileStreams s1)\<rparr>)))))"

definition info :: "runtime \<Rightarrow> clock \<Rightarrow> clock \<Rightarrow> jsval \<Rightarrow> logger \<Rightarrow> (js_error + bool) \<times> logger" where
  "info rt c1 c2 message s = log rt c1 c2 ''info'' message s"

definition warn :: "runtime \<Rightarrow> clock \<Rightarrow> clock \<Rightarrow> jsval \<Rightarrow> logger \<Rightarrow> (js_error + bool) \<times> logger" where
  "warn rt c1 c2 message s = log rt c1 c2 ''warn'' message s"

definition error :: "runtime \<Rightarrow> clock \<Rightarrow> clock \<Rightarrow> jsval \<Rightarrow> logger \<Rightarrow> (js_error + bool) \<times> logger" where
  "error rt c1 c2 message s = log rt c1 c2 ''error'' message s"

definition debug :: "runtime \<Rightarrow> clock \<Rightarrow> clock \<Rightarrow> jsval \<Rightarrow> logger \<Rightarrow> (js_error + bool) \<times> logger" where
  "debug rt c1 c2 message s =
     (if NODE_ENV rt = Some ''development'' then log rt c1 c2 ''debug'' message s
      else (Inr False, s))"

definition positive :: "jsnum \<Rightarrow> bool" where
  "positive ix = (case ix of Num i \<Rightarrow> 0 < i | NaN \<Rightarrow> False)"

text \<open>One firing of the timer that \<^verbatim>\<open>startBuffering\<close> sets up.\<close>

definition flushLoop :: "logger \<Rightarrow> logger" where
  "flushLoop s = (if \<not> isClosed s \<and> positive (index s) \<and> \<not> isFlushing s then flush s else s)"

text \<open>
  \<open>close\<close> sets \<^verbatim>\<open>isClosed\<close> before its first suspension, so a call that runs
  while it awaits finds the logger closed; the rest of it is modelled as one step.
\<close>

definition close :: "logger \<Rightarrow> logger" where
  "close s =
     (if isClosed s then s
      else
        let s1 = s\<lparr>isClosed := True\<rparr>;
            s2 = (if positive (index s1) \<or> isFlushing s1 then flush s1 else s1);
            s3 = (if writeStream s2 \<noteq> ProcessStdout then s2\<lparr>other := end_stream (other s2)\<rparr>
                  else s2)
        in s3\<lparr>fileStreams := map (\<lambda>(k, st). (k, end_stream st)) (fileStreams s3)\<rparr>)"

record options =
  opt_bufferSize :: "int option"
  opt_flushInterval :: "nat option"
  opt_writeStream :: "sink option"
  opt_highResTimestamps :: "bool option"
  opt_inmediate :: "bool option"

definition new_stream :: stream where
  "new_stream = \<lparr>chunks = [], ended = False\<rparr>"

definition initializeStreams :: "(string \<times> stream) list" where
  "initializeStreams =
     [(''info'', new_stream), (''debug'', new_stream), (''error'', new_stream), (''warn'', new_stream)]"

text \<open>
  The constructor. \<^verbatim>\<open>new Array(n)\<close> throws a \<^verbatim>\<open>RangeError\<close> unless
  \<open>0 \<le> n < 2^32\<close>; a size that is not an integer is outside this model. Each stream
  starts with nothing written by this logger.
\<close>

definition Logger :: "string \<Rightarrow> string \<Rightarrow> options \<Rightarrow> js_error + logger" where
  "Logger cwd stackText opts =
     (let n = (case opt_bufferSize opts of Some b \<Rightarrow> b | None \<Rightarrow> 1024) in
      if n < 0 \<or> 4294967295 < n then Inl InvalidArrayLength
      else
        Inr \<lparr>source = getCallerClass cwd stackText,
             buffer = replicate (nat n) None,
             bufferSize = nat n,
             flushInterval = (case opt_flushInterval opts of Some f \<Rightarrow> f | None \<Rightarrow> 200),
             isFlushing = False,
             writeStream = (case opt_writeStream opts of Some w \<Rightarrow> w | None \<Rightarrow> ProcessStdout),
             index = Num 0,
             isClosed = False,
             highResTimestamps = (case opt_highResTimestamps opts of Some h \<Rightarrow> h | None \<Rightarrow> False),
             inmediate = (case opt_inmediate opts of Some i \<Rightarrow> i | None \<Rightarrow> True),
             fileStreams = initializeStreams,
             stdout = new_stream,
             other = new_stream\<rparr>)"

section \<open>Runs, and the notions the properties are stated with\<close>

text \<open>
  \<open>console\<close> is the stream the field \<^verbatim>\<open>writeStream\<close> refers to. A logger is
  \<open>active\<close> when it is not closed, no flush is under way, none of its streams has
  been ended and its file sinks are the four the constructor opened; \<open>empty_buffer\<close>
  says that it has nothing pending.
\<close>

definition console :: "logger \<Rightarrow> stream" where
  "console s = (case writeStream s of ProcessStdout \<Rightarrow> stdout s | OtherStream \<Rightarrow> other s)"

definition active :: "logger \<Rightarrow> bool" where
  "active s =
     (\<not> isClosed s \<and> \<not> isFlushing s \<and> \<not> ended (stdout s) \<and> \<not> ended (other s) \<and>
      list_all (\<lambda>(k, st). \<not> ended st) (fileStreams s) \<and>
      map fst (fileStreams s) = map fst initializeStreams)"

definition empty_buffer :: "logger \<Rightarrow> bool" where
  "empty_buffer s = (index s = Num 0 \<and> buffer s = replicate (bufferSize s) None)"

definition index_in_range :: "logger \<Rightarrow> bool" where
  "index_in_range s = (case index s of Num i \<Rightarrow> i < bufferSize s | NaN \<Rightarrow> False)"

definition formats :: "runtime \<Rightarrow> jsval \<Rightarrow> bool" where
  "formats rt message =
     (case formatValue (stackDepth rt) (heap rt) (stringify rt) message of
        Inl e \<Rightarrow> False
      | Inr t \<Rightarrow> True)"

text \<open>
  The two variants of a call's message, for a call whose message formats (the empty
  text otherwise).
\<close>

definition console_variant :: "runtime \<Rightarrow> logger \<Rightarrow> clock \<Rightarrow> string \<Rightarrow> jsval \<Rightarrow> string" where
  "console_variant rt s clk level message =
     (case formatMessage rt s clk level message True of Inl e \<Rightarrow> [] | Inr t \<Rightarrow> t)"

definition file_variant :: "runtime \<Rightarrow> logger \<Rightarrow> clock \<Rightarrow> string \<Rightarrow> jsval \<Rightarrow> string" where
  "file_variant rt s clk level message =
     (case formatMessage rt s clk level message False of Inl e \<Rightarrow> [] | Inr t \<Rightarrow> t)"

text \<open>
  The operations on a logger, and a run of them. A \<open>Log\<close> carries the two clock
  readings of the call, its level and its message; \<open>Tick\<close> is one firing of the flush
  timer. A caller that catches an exception goes on with the logger as the call left it.
\<close>

datatype op = Log clock clock string jsval | Flush | Close | Tick

fun step :: "runtime \<Rightarrow> op \<Rightarrow> logger \<Rightarrow> logger" where
  "step rt (Log c1 c2 level message) s = snd (log rt c1 c2 level message s)"
| "step rt Flush s = flush s"
| "step rt Close s = close s"
| "step rt Tick s = flushLoop s"

definition run :: "runtime \<Rightarrow> op list \<Rightarrow> logger \<Rightarrow> logger" where
  "run rt ops s = foldl (\<lambda>s' o'. step rt o' s') s ops"

text \<open>
  A sequence of \<open>log\<close> calls, each given by its two clock readings, its level and its
  message; the console lines of the calls, the chunks they write to their file sinks,
  and the chunks a file sink holds.
\<close>

definition log_calls :: "(clock \<times> clock \<times> string \<times> jsval) list \<Rightarrow> op list" where
  "log_calls cs = map (\<lambda>(c1, c2, level, message). Log c1 c2 level message) cs"

definition console_lines ::
  "runtime \<Rightarrow> logger \<Rightarrow> (clock \<times> clock \<times> string \<times> jsval) list \<Rightarrow> string list" where
  "console_lines rt s cs = map (\<lambda>(c1, c2, level, message). console_variant rt s c1 level message) cs"

definition file_lines ::
  "runtime \<Rightarrow> logger \<Rightarrow> (clock \<times> clock \<times> string \<times> jsval) list \<Rightarrow> string list" where
  "file_lines rt s cs = map (\<lambda>(c1, c2, level, message). file_variant rt s c2 level message @ nl) cs"

definition file_chunks :: "logger \<Rightarrow> string \<Rightarrow> string list" where
  "file_chunks s level = (case map_of (fileStreams s) level of None \<Rightarrow> [] | Some st \<Rightarrow> chunks st)"

text \<open>
  The console line as the specification words it, with a reset straight after the
  severity tag and another after the source label.
\<close>

definition spec_console_line :: "string \<Rightarrow> string \<Rightarrow> string \<Rightarrow> string \<Rightarrow> string" where
  "spec_console_line ts level src message =
     ''['' @ ts @ ''] '' @ color_of level @ ''['' @ toUpperCase level @ '']'' @ reset @
     '' '' @ src @ reset @ '': '' @ message"

fun occurrences :: "string \<Rightarrow> string \<Rightarrow> nat" where
  "occurrences [] p = 0"
| "occurrences (c # cs) p = (if startsWith (c # cs) p then 1 else 0) + occurrences cs p"

text \<open>
  The bare identifier as the specification words it: the segment before the first dot,
  split on white space (at every white-space character), the first token dropped when
  there is more than one. \<open>space_bare_identifier\<close> is the same with the split at
  the space character only.
\<close>

fun split_where :: "(char \<Rightarrow> bool) \<Rightarrow> string \<Rightarrow> string list" where
  "split_where P [] = [[]]"
| "split_where P (c # cs) =
     (if P c then [] # split_where P cs
      else (case split_where P cs of [] \<Rightarrow> [[c]] | x # xs \<Rightarrow> (c # x) # xs))"

definition spec_bare_identifier :: "string \<Rightarrow> string" where
  "spec_bare_identifier ident =
     (let tokens = split_where is_space (takeWhile (\<lambda>c. c \<noteq> CHR ''.'') ident)
      in if length tokens > 1 then tokens ! 1 else tokens ! 0)"

definition space_bare_identifier :: "string \<Rightarrow> string" where
  "space_bare_identifier ident =
     (let tokens = split_on (CHR '' '') (takeWhile (\<lambda>c. c \<noteq> CHR ''.'') ident)
      in if length tokens > 1 then tokens ! 1 else tokens ! 0)"

subsection \<open>Concrete inputs\<close>

text \<open>
  A captured stack, a heap with a \<^verbatim>\<open>Map\<close> and a \<^verbatim>\<open>Set\<close> that contain
  themselves, a runtime and a clock reading. \<open>demo_logger n im ws\<close> is the logger that
  the constructor builds from \<open>demo_stack\<close> and \<open>demo_options n im ws\<close>.
\<close>

definition demo_stack :: string where
  "demo_stack =
     ''Error'' @ nl @
     ''    at Logger.getCallerClass (/proj/src/SourceClass.ts:18:11)'' @ nl @
     ''    at new Logger (/proj/src/Logger.ts:56:25)'' @ nl @
     ''    at new HTTPRequest (/proj/src/HTTPRequest.ts:30:19)'' @ nl @
     ''    at Object.<anonymous> (/proj/src/main.ts:3:13)'' @ nl @
     ''    at Module._compile (node:internal/modules/cjs/loader:1105:14)''"

text \<open>
  A captured stack whose only frame after the resolver's own is a plain call of a
  function named \<open>my<TAB>handler\<close>.
\<close>

definition tab_stack :: string where
  "tab_stack =
     ''Error'' @ nl @
     ''    at Logger.getCallerClass (/proj/src/SourceClass.ts:18:11)'' @ nl @
     ''    at my'' @ [CHR 0x09] @ ''handler (/proj/src/main.ts:3:13)''"

definition demo_heap :: "addr \<Rightarrow> jsobj" where
  "demo_heap a =
     (if a = 0 then MapObj [(Prim ''self'', Ref 0)]
      else if a = 1 then SetObj [Ref 1]
      else PlainObj)"

definition demo_rt :: runtime where
  "demo_rt =
     \<lparr>heap = demo_heap, stackDepth = 100, stringify = (\<lambda>a. None),
      NODE_ENV = Some ''development'', inherited = (\<lambda>k. None)\<rparr>"

definition demo_clock :: clock where
  "demo_clock = \<lparr>hrtime = 1234567, isoString = ''2024-01-01T00:00:00.000Z''\<rparr>"

definition demo_logger :: "nat \<Rightarrow> bool \<Rightarrow> sink \<Rightarrow> logger" where
  "demo_logger n im ws =
     \<lparr>source = ''HTTPRequest'',
      buffer = replicate n None,
      bufferSize = n,
      flushInterval = 200,
      isFlushing = False,
      writeStream = ws,
      index = Num 0,
      isClosed = False,
      highResTimestamps = False,
      inmediate = im,
      fileStreams = initializeStreams,
      stdout = new_stream,
      other = new_stream\<rparr>"

definition demo_options :: "int \<Rightarrow> bool \<Rightarrow> sink \<Rightarrow> options" where
  "demo_options n im ws =
     \<lparr>opt_bufferSize = Some n, opt_flushInterval = None, opt_writeStream = Some ws,
      opt_highResTimestamps = None, opt_inmediate = Some im\<rparr>"

section \<open>Facts about the model\<close>

subsection \<open>Splitting and sorting\<close>

lemma split_on_nonempty: "split_on c s \<noteq> []"
  by (induction s) (auto split: list.splits)

lemma hd_split_on: "hd (split_on c s) = takeWhile (\<lambda>x. x \<noteq> c) s"
  by (induction s) (auto split: list.splits simp: split_on_nonempty)

lemma className_space: "className ident = space_bare_identifier ident"
proof -
  obtain seg rest where s: "split_on (CHR ''.'') ident = seg # rest"
    using split_on_nonempty [of "CHR ''.''" ident] by (cases "split_on (CHR ''.'') ident") auto
  then have seg: "seg = takeWhile (\<lambda>x. x \<noteq> CHR ''.'') ident"
    using hd_split_on [of "CHR ''.''" ident] by simp
  obtain tok toks where t: "split_on (CHR '' '') seg = tok # toks"
    using split_on_nonempty [of "CHR '' ''" seg] by (cases "split_on (CHR '' '') seg") auto
  show ?thesis
  proof (cases toks)
    case Nil
    with s t seg show ?thesis
      by (simp add: className_def space_bare_identifier_def)
  next
    case (Cons t2 ts)
    with s t seg show ?thesis
      by (simp add: className_def space_bare_identifier_def)
  qed
qed

lemma hd_insort_key:
  "hd (insort_key f x ys) = (if ys = [] \<or> f x \<le> f (hd ys) then x else hd ys)"
  by (cases ys) auto

lemma sort_key_first_min:
  "xs \<noteq> [] \<Longrightarrow>
   \<exists>pre post. xs = pre @ hd (sort_key f xs) # post \<and>
     (\<forall>g \<in> set pre. f (hd (sort_key f xs)) < f g) \<and>
     (\<forall>g \<in> set post. f (hd (sort_key f xs)) \<le> f g)"
proof (induction xs)
  case Nil
  then show ?case by simp
next
  case (Cons x xs)
  show ?case
  proof (cases "xs = []")
    case True
    then show ?thesis
      by (intro exI [of _ "[]"]) simp
  next
    case False
    let ?h = "hd (sort_key f xs)"
    from False Cons.IH obtain pre post where
      p: "xs = pre @ ?h # post" "\<forall>g \<in> set pre. f ?h < f g" "\<forall>g \<in> set post. f ?h \<le> f g"
      by blast
    from False have ne: "sort_key f xs \<noteq> []"
      by (metis length_0_conv length_sort)
    have all: "\<forall>g \<in> set xs. f ?h \<le> f g"
    proof
      fix g assume "g \<in> set xs"
      then have "g \<in> set (pre @ ?h # post)" using p(1) by simp
      then show "f ?h \<le> f g" using p(2,3) by auto
    qed
    show ?thesis
    proof (cases "f x \<le> f ?h")
      case True
      with ne have h: "hd (sort_key f (x # xs)) = x"
        by (simp add: hd_insort_key)
      have "x # xs = [] @ x # xs" by simp
      moreover have "\<forall>g \<in> set xs. f x \<le> f g" using True all by auto
      ultimately show ?thesis unfolding h by (intro exI [of _ "[]"] exI [of _ xs]) simp
    next
      case nle: False
      with ne have h: "hd (sort_key f (x # xs)) = ?h"
        by (simp add: hd_insort_key)
      have "x # xs = (x # pre) @ ?h # post" using p(1) by simp
      moreover have "\<forall>g \<in> set (x # pre). f ?h < f g" using nle p(2) by auto
      ultimately show ?thesis unfolding h using p(3)
        by (intro exI [of _ "x # pre"] exI [of _ post]) simp
    qed
  qed
qed

subsection \<open>Formatting\<close>

lemma formatValue_Prim: "0 < d \<Longrightarrow> formatValue d h js (Prim t) = Inr t"
  by (cases d) simp_all

lemma formats_Prim: "0 < stackDepth rt \<Longrightarrow> formats rt (Prim t)"
  by (simp add: formats_def formatValue_Prim)

lemma plain_object_circular:
  "h a = PlainObj \<Longrightarrow> js a = None \<Longrightarrow> formatValue (Suc d) h js (Ref a) = Inr ''[Circular]''"
  by simp

lemma color_known:
  "map_of colors ''info'' = Some (esc @ ''[32m'')"
  "map_of colors ''warn'' = Some (esc @ ''[33m'')"
  "map_of colors ''error'' = Some (esc @ ''[31m'')"
  "map_of colors ''debug'' = Some (esc @ ''[34m'')"
  by (simp_all add: colors_def)

lemma upper_known:
  "toUpperCase ''info'' = ''INFO''"
  "toUpperCase ''warn'' = ''WARN''"
  "toUpperCase ''error'' = ''ERROR''"
  "toUpperCase ''debug'' = ''DEBUG''"
  by (simp_all add: toUpperCase_def upper_char_def)

lemma formatMessage_console:
  "formatValue (stackDepth rt) (heap rt) (stringify rt) message = Inr text \<Longrightarrow>
   formatMessage rt s clk level message True =
     Inr (''['' @ timestamp s clk @ ''] '' @
          (case map_of colors level of
             Some c \<Rightarrow> c
           | None \<Rightarrow> (case inherited rt level of Some m \<Rightarrow> m | None \<Rightarrow> reset)) @
          ''['' @ toUpperCase level @ ''] '' @ source s @ reset @ '': '' @ text)"
  by (simp add: formatMessage_def Let_def)

lemma formatMessage_file:
  "formatValue (stackDepth rt) (heap rt) (stringify rt) message = Inr text \<Longrightarrow>
   formatMessage rt s clk level message False =
     Inr (''['' @ timestamp s clk @ ''] ['' @ toUpperCase level @ ''] '' @ source s @ '': '' @ text)"
  by (simp add: formatMessage_def Let_def)

lemma console_variant_eq:
  "formatMessage rt s clk level message True = Inr t \<Longrightarrow> console_variant rt s clk level message = t"
  by (simp add: console_variant_def)

lemma formats_variants:
  assumes "formats rt message"
  shows "formatMessage rt s c1 level message True = Inr (console_variant rt s c1 level message)"
    and "formatMessage rt s c2 level message False = Inr (file_variant rt s c2 level message)"
  using assms
  by (auto simp: formats_def formatMessage_def console_variant_def file_variant_def Let_def
      split: sum.splits)

lemma formatMessage_cong:
  assumes "source s' = source s" and "highResTimestamps s' = highResTimestamps s"
  shows "formatMessage rt s' clk level message b = formatMessage rt s clk level message b"
  using assms
  by (cases "formatValue (stackDepth rt) (heap rt) (stringify rt) message")
     (simp_all add: formatMessage_def timestamp_def Let_def)

lemma variant_cong:
  assumes "source s' = source s" and "highResTimestamps s' = highResTimestamps s"
  shows "console_variant rt s' clk level message = console_variant rt s clk level message"
    and "file_variant rt s' clk level message = file_variant rt s clk level message"
  by (simp_all add: console_variant_def file_variant_def formatMessage_cong [OF assms])

lemma formatMessage_nonempty: "formatMessage rt s clk level message b = Inr t \<Longrightarrow> t \<noteq> []"
  by (auto simp: formatMessage_def Let_def split: sum.splits if_splits)

lemma console_variant_nonempty: "formats rt message \<Longrightarrow> console_variant rt s clk level message \<noteq> []"
  using formats_variants(1) [of rt message s clk level] formatMessage_nonempty by metis

subsection \<open>Streams and the console sink\<close>

lemma ended_write_stream: "ended (write_stream t st) = ended st"
  by (simp add: write_stream_def)

lemma fst_update_stream: "map fst (update_stream k v fs) = map fst fs"
  by (induction fs) (auto simp: update_stream_def)

lemma map_of_update_stream:
  "map_of (update_stream k v fs) k' =
     (if k' = k then map_option (\<lambda>_. v) (map_of fs k) else map_of fs k')"
  by (induction fs) (auto simp: update_stream_def)

lemma live_update_stream:
  "list_all (\<lambda>(k, st). \<not> ended st) fs \<Longrightarrow> map_of fs k = Some st \<Longrightarrow>
   list_all (\<lambda>(k, st). \<not> ended st) (update_stream k (write_stream t st) fs)"
proof -
  assume a: "list_all (\<lambda>(k, st). \<not> ended st) fs" and b: "map_of fs k = Some st"
  from b have "(k, st) \<in> set fs" by (rule map_of_SomeD)
  with a have "\<not> ended st" by (auto simp: list_all_iff)
  with a show ?thesis
    by (auto simp: list_all_iff update_stream_def ended_write_stream split: if_splits)
qed

lemma map_of_absent: "k \<notin> set (map fst fs) \<Longrightarrow> map_of fs k = None"
  by (simp add: map_of_eq_None_iff)

lemma write_console_fields:
  "buffer (write_console t s) = buffer s"
  "index (write_console t s) = index s"
  "fileStreams (write_console t s) = fileStreams s"
  "isClosed (write_console t s) = isClosed s"
  "writeStream (write_console t s) = writeStream s"
  by (simp_all add: write_console_def split: sink.splits)

lemma console_write_console:
  "\<not> ended (console s) \<Longrightarrow> chunks (console (write_console t s)) = chunks (console s) @ [t]"
  by (cases "writeStream s") (simp_all add: console_def write_console_def write_stream_def)

lemma console_set_files: "console (s\<lparr>fileStreams := fs\<rparr>) = console s"
  by (cases "writeStream s") (simp_all add: console_def)

lemma console_cong:
  "stdout s' = stdout s \<Longrightarrow> other s' = other s \<Longrightarrow> writeStream s' = writeStream s \<Longrightarrow>
   console s' = console s"
  by (cases "writeStream s") (simp_all add: console_def)

lemma active_console: "active s \<Longrightarrow> \<not> ended (console s)"
  by (cases "writeStream s") (simp_all add: active_def console_def)

lemma active_info_stream:
  assumes "active s"
  shows "\<exists>st. map_of (fileStreams s) ''info'' = Some st \<and> \<not> ended st"
proof -
  from assms have k: "map fst (fileStreams s) = [''info'', ''debug'', ''error'', ''warn'']"
    and e: "list_all (\<lambda>(k, st). \<not> ended st) (fileStreams s)"
    by (simp_all add: active_def initializeStreams_def)
  from k obtain st rest where f: "fileStreams s = (''info'', st) # rest"
    by (cases "fileStreams s") auto
  with e show ?thesis by auto
qed

subsection \<open>The flush\<close>

lemma truthy_simps: "\<not> truthy None" "truthy (Some m) = (m \<noteq> [])"
  by (simp_all add: truthy_def)

lemma flush_loop_spec:
  "length buf = n \<Longrightarrow> i \<le> n \<Longrightarrow>
   flush_loop i n buf batch =
     (take i buf @ map (\<lambda>x. if truthy x then None else x) (drop i buf),
      batch @ map the (filter truthy (drop i buf)))"
proof (induction i n buf batch rule: flush_loop.induct)
  case (1 i n buf batch)
  show ?case
  proof (cases "i < n")
    case False
    with "1.prems" show ?thesis
      by (subst flush_loop.simps) simp
  next
    case True
    with "1.prems" have d: "drop i buf = buf ! i # drop (Suc i) buf"
      by (simp add: Cons_nth_drop_Suc)
    from True "1.prems" have t: "take (Suc i) buf = take i buf @ [buf ! i]"
      by (simp add: take_Suc_conv_app_nth)
    from True "1.prems" have g: "array_get buf i = buf ! i"
      by (simp add: array_get_def)
    show ?thesis
    proof (cases "buf ! i")
      case None
      with True g "1.IH"(1) "1.prems" have
        "flush_loop (i + 1) n buf batch =
           (take (i + 1) buf @ map (\<lambda>x. if truthy x then None else x) (drop (i + 1) buf),
            batch @ map the (filter truthy (drop (i + 1) buf)))"
        by simp
      with True g None d t show ?thesis
        by (simp add: flush_loop.simps [of i n] truthy_simps)
    next
      case (Some m)
      show ?thesis
      proof (cases "m = []")
        case True
        with \<open>i < n\<close> g Some "1.IH"(2) "1.prems" have
          "flush_loop (i + 1) n buf batch =
             (take (i + 1) buf @ map (\<lambda>x. if truthy x then None else x) (drop (i + 1) buf),
              batch @ map the (filter truthy (drop (i + 1) buf)))"
          by simp
        with \<open>i < n\<close> g Some True d t show ?thesis
          by (simp add: flush_loop.simps [of i n] truthy_simps)
      next
        case False
        from \<open>i < n\<close> "1.prems" have s: "array_set buf i None = buf[i := None]"
          by (simp add: array_set_def)
        with \<open>i < n\<close> g Some False "1.IH"(3) "1.prems" have
          "flush_loop (i + 1) n (buf[i := None]) (batch @ [m]) =
             (take (i + 1) (buf[i := None]) @
                map (\<lambda>x. if truthy x then None else x) (drop (i + 1) (buf[i := None])),
              (batch @ [m]) @ map the (filter truthy (drop (i + 1) (buf[i := None]))))"
          by simp
        moreover from \<open>i < n\<close> "1.prems" have "take (i + 1) (buf[i := None]) = take i buf @ [None]"
          by (simp add: take_Suc_conv_app_nth)
        ultimately show ?thesis
          using \<open>i < n\<close> g Some False d s
          by (simp add: flush_loop.simps [of i n] truthy_simps)
      qed
    qed
  qed
qed

lemma flush_loop_full:
  assumes "\<forall>l \<in> set ls. l \<noteq> []"
  shows "flush_loop 0 (length ls + k) (map Some ls @ replicate k None) [] =
           (replicate (length ls + k) None, ls)"
proof -
  have f: "filter truthy (map Some ls) = map Some ls"
    using assms by (induction ls) (auto simp: truthy_simps)
  have g: "filter truthy (replicate k None) = []"
    by (induction k) (auto simp: truthy_simps)
  have m: "map (\<lambda>x. if truthy (Some x) then None else Some x) ls = replicate (length ls) None"
    using assms by (induction ls) (auto simp: truthy_simps)
  have r: "map (\<lambda>x. if truthy x then None else x) (replicate k None) = replicate k (None :: string option)"
    by (induction k) (auto simp: truthy_simps)
  show ?thesis
    by (simp add: flush_loop_spec f g m r comp_def replicate_add)
qed

lemma fileStreams_flush: "fileStreams (flush s) = fileStreams s"
  by (simp add: flush_def write_console_def Let_def split: prod.splits sink.splits)

lemma flush_keeps:
  "bufferSize (flush s) = bufferSize s"
  "index (flush s) = (if isFlushing s \<or> isClosed s then index s else Num 0)"
  by (simp_all add: flush_def write_console_def Let_def split: prod.splits sink.splits)

lemma flush_config:
  "writeStream (flush s) = writeStream s"
  "source (flush s) = source s"
  "highResTimestamps (flush s) = highResTimestamps s"
  "inmediate (flush s) = inmediate s"
  "isClosed (flush s) = isClosed s"
  "isFlushing (flush s) = isFlushing s"
  by (auto simp: flush_def write_console_def Let_def split: prod.splits sink.splits)

lemma flush_streams:
  "ended (stdout (flush s)) = ended (stdout s)"
  "ended (other (flush s)) = ended (other s)"
  by (auto simp: flush_def write_console_def Let_def ended_write_stream split: prod.splits sink.splits)

lemma flush_effect:
  assumes "\<not> isFlushing s" and "\<not> isClosed s"
    and "flush_loop 0 (bufferSize s) (buffer s) [] = (buf, batch)"
  shows "flush s =
           (if batch \<noteq> [] then write_console (join nl batch @ nl) (s\<lparr>buffer := buf, index := Num 0\<rparr>)
            else s\<lparr>buffer := buf, index := Num 0\<rparr>)"
  using assms
  by (intro logger.equality) (simp_all add: flush_def Let_def write_console_def split: sink.splits)

lemma index_in_range_iff: "index_in_range s = (\<exists>i. index s = Num i \<and> i < bufferSize s)"
  by (cases "index s") (simp_all add: index_in_range_def)

lemma flush_keeps_range:
  "0 < bufferSize s \<Longrightarrow> index_in_range s \<Longrightarrow> index_in_range (flush s)"
  by (cases "isFlushing s \<or> isClosed s") (simp_all add: index_in_range_iff flush_keeps)

subsection \<open>One call of log\<close>

lemma log_immediate:
  assumes "\<not> isClosed s" and "inmediate s \<or> level = ''warn'' \<or> level = ''error''"
    and "formats rt message" and "map_of (fileStreams s) level = Some st"
  shows "log rt c1 c2 level message s =
           (Inr True,
            s\<lparr>stdout := write_stream (console_variant rt s c1 level message @ nl) (stdout s),
              fileStreams := update_stream level
                 (write_stream (file_variant rt s c2 level message @ nl) st) (fileStreams s)\<rparr>)"
  using assms(1,2,4) formats_variants [OF assms(3), of s]
  by (simp add: log_def Let_def)

lemma log_buffered:
  assumes "\<not> isClosed s" and "\<not> inmediate s" and "level \<noteq> ''warn''" and "level \<noteq> ''error''"
    and "formats rt message" and "map_of (fileStreams s) level = Some st"
    and "index s = Num i" and "Suc i < bufferSize s" and "i < length (buffer s)"
  shows "log rt c1 c2 level message s =
           (Inr True,
            s\<lparr>buffer := (buffer s)[i := Some (console_variant rt s c1 level message)],
              index := Num (Suc i),
              fileStreams := update_stream level
                 (write_stream (file_variant rt s c2 level message @ nl) st) (fileStreams s)\<rparr>)"
  using assms(1-4,6-9) formats_variants [OF assms(5), of s]
  by (simp add: log_def Let_def store_def advance_def array_set_def)

lemma log_wrap:
  assumes "\<not> isClosed s" and "\<not> inmediate s" and "level \<noteq> ''warn''" and "level \<noteq> ''error''"
    and "formats rt message" and "map_of (fileStreams s) level = Some st"
    and "index s = Num i" and "Suc i = bufferSize s" and "i < length (buffer s)"
  shows "log rt c1 c2 level message s =
           (Inr True,
            (flush (s\<lparr>buffer := (buffer s)[i := Some (console_variant rt s c1 level message)],
                     index := Num 0\<rparr>))
              \<lparr>fileStreams := update_stream level
                 (write_stream (file_variant rt s c2 level message @ nl) st) (fileStreams s)\<rparr>)"
  using assms(1-4,6,7,9) assms(8) [symmetric] formats_variants [OF assms(5), of s]
  by (simp add: log_def Let_def store_def advance_def array_set_def fileStreams_flush)

text \<open>The state after a buffered call, whatever the file sink lookup gives.\<close>

lemma log_buffered_state:
  assumes "\<not> isClosed s" and "\<not> inmediate s" and "level \<noteq> ''warn''" and "level \<noteq> ''error''"
    and "formats rt message"
    and "index s = Num i" and "Suc i < bufferSize s" and "i < length (buffer s)"
  shows "\<exists>fs. snd (log rt c1 c2 level message s) =
           s\<lparr>buffer := (buffer s)[i := Some (console_variant rt s c1 level message)],
             index := Num (Suc i), fileStreams := fs\<rparr>"
proof (cases "map_of (fileStreams s) level")
  case None
  with assms(1-4,6-8) formats_variants [OF assms(5), of s]
  have "snd (log rt c1 c2 level message s) =
      s\<lparr>buffer := (buffer s)[i := Some (console_variant rt s c1 level message)],
        index := Num (Suc i), fileStreams := fileStreams s\<rparr>"
    by (simp add: log_def Let_def store_def advance_def array_set_def)
  then show ?thesis by blast
next
  case (Some st)
  from log_buffered [OF assms(1-5) Some assms(6-8), of c1 c2] show ?thesis
    by (intro exI) simp
qed

lemma log_wrap_state:
  assumes "\<not> isClosed s" and "\<not> inmediate s" and "level \<noteq> ''warn''" and "level \<noteq> ''error''"
    and "formats rt message"
    and "index s = Num i" and "Suc i = bufferSize s" and "i < length (buffer s)"
  shows "\<exists>fs. snd (log rt c1 c2 level message s) =
           (flush (s\<lparr>buffer := (buffer s)[i := Some (console_variant rt s c1 level message)],
                     index := Num 0\<rparr>))\<lparr>fileStreams := fs\<rparr>"
proof (cases "map_of (fileStreams s) level")
  case None
  let ?x = "flush (s\<lparr>buffer := (buffer s)[i := Some (console_variant rt s c1 level message)],
                     index := Num 0\<rparr>)"
  from None assms(1-4,6,8) assms(7) [symmetric] formats_variants [OF assms(5), of s]
  have "snd (log rt c1 c2 level message s) = ?x"
    by (simp add: log_def Let_def store_def advance_def array_set_def fileStreams_flush)
  then have "snd (log rt c1 c2 level message s) = ?x\<lparr>fileStreams := fileStreams ?x\<rparr>"
    by simp
  then show ?thesis by blast
next
  case (Some st)
  from log_wrap [OF assms(1-5) Some assms(6-8), of c1 c2] show ?thesis
    by (intro exI) simp
qed

lemma log_config:
  "writeStream (snd (log rt c1 c2 level message s)) = writeStream s"
  "source (snd (log rt c1 c2 level message s)) = source s"
  "highResTimestamps (snd (log rt c1 c2 level message s)) = highResTimestamps s"
  "inmediate (snd (log rt c1 c2 level message s)) = inmediate s"
  "isClosed (snd (log rt c1 c2 level message s)) = isClosed s"
  "isFlushing (snd (log rt c1 c2 level message s)) = isFlushing s"
  by (simp_all add: log_def Let_def flush_config split: sum.splits option.splits)

lemma log_keeps_bufferSize: "bufferSize (snd (log rt c1 c2 level message s)) = bufferSize s"
  by (simp add: log_def Let_def flush_keeps split: sum.splits option.splits)

lemma advance_in_range:
  "0 < n \<Longrightarrow> (case advance ix n of Num i \<Rightarrow> i < n | NaN \<Rightarrow> False) = (ix \<noteq> NaN)"
  by (cases ix) (simp_all add: advance_def)

lemma log_index_cases:
  "index (snd (log rt c1 c2 level message s)) = index s \<or>
   index (snd (log rt c1 c2 level message s)) = advance (index s) (bufferSize s) \<or>
   index (snd (log rt c1 c2 level message s)) = Num 0"
  by (auto simp: log_def Let_def flush_keeps split: sum.splits option.splits)

lemma log_keeps_range:
  assumes "0 < bufferSize s" and "index_in_range s"
  shows "index_in_range (snd (log rt c1 c2 level message s))"
proof -
  from assms obtain i where i: "index s = Num i" "i < bufferSize s"
    by (auto simp: index_in_range_iff)
  have a: "advance (Num i) (bufferSize s) = Num (Suc i mod bufferSize s)"
    using assms(1) by (simp add: advance_def)
  have m: "Suc i mod bufferSize s < bufferSize s"
    using assms(1) by simp
  from log_index_cases [of rt c1 c2 level message s] show ?thesis
    using assms(1) i m
    by (auto simp: index_in_range_iff log_keeps_bufferSize a)
qed

lemma log_size_zero:
  assumes "\<not> isClosed s" and "\<not> inmediate s" and "level \<noteq> ''warn''" and "level \<noteq> ''error''"
    and "formats rt message" and "bufferSize s = 0" and "index s = Num i"
  shows "index (snd (log rt c1 c2 level message s)) = NaN"
  using assms(1-4,6,7) formats_variants [OF assms(5), of s]
  by (simp add: log_def Let_def advance_def split: option.splits)

lemma log_streams:
  "ended (stdout (snd (log rt c1 c2 level message s))) = ended (stdout s)"
  "ended (other (snd (log rt c1 c2 level message s))) = ended (other s)"
  "map fst (fileStreams (snd (log rt c1 c2 level message s))) = map fst (fileStreams s)"
  by (simp_all add: log_def Let_def flush_streams fileStreams_flush ended_write_stream
      fst_update_stream split: sum.splits option.splits)

lemma log_live_files:
  assumes "list_all (\<lambda>(k, st). \<not> ended st) (fileStreams s)"
  shows "list_all (\<lambda>(k, st). \<not> ended st) (fileStreams (snd (log rt c1 c2 level message s)))"
  using assms
  by (auto simp: log_def Let_def fileStreams_flush live_update_stream split: sum.splits option.splits)

lemma log_files:
  assumes "\<not> isClosed s" and "formats rt message" and "map_of (fileStreams s) level = Some st"
  shows "fileStreams (snd (log rt c1 c2 level message s)) =
           update_stream level (write_stream (file_variant rt s c2 level message @ nl) st)
             (fileStreams s)"
  using assms(1,3) formats_variants [OF assms(2), of s]
  by (simp add: log_def Let_def fileStreams_flush)

subsection \<open>Closing and constructing\<close>

lemma isClosed_close: "isClosed (close s)"
  by (simp add: close_def flush_def Let_def)

lemma close_effect:
  "\<not> isClosed s \<Longrightarrow>
   close s =
     s\<lparr>isClosed := True,
       other := (if writeStream s \<noteq> ProcessStdout then end_stream (other s) else other s),
       fileStreams := map (\<lambda>(k, st). (k, end_stream st)) (fileStreams s)\<rparr>"
  by (simp add: close_def flush_def Let_def)

lemma close_keeps:
  "bufferSize (close s) = bufferSize s" "index (close s) = index s"
  by (simp_all add: close_def Let_def flush_def)

lemma close_streams:
  "ended (stdout (close s)) = ended (stdout s)"
  "map fst (fileStreams (close s)) = map fst (fileStreams s)"
  "isFlushing (close s) = isFlushing s"
  by (simp_all add: close_def Let_def flush_def comp_def case_prod_beta)

lemma new_logger_fields:
  assumes "Logger cwd stackText opts = Inr s"
  shows "index s = Num 0" "buffer s = replicate (bufferSize s) None" "\<not> isClosed s" "\<not> isFlushing s"
    "fileStreams s = initializeStreams" "stdout s = new_stream" "other s = new_stream"
  using assms by (auto simp: Logger_def Let_def split: if_splits)

subsection \<open>Runs\<close>

lemma run_snoc: "run rt (ops @ [o']) s = step rt o' (run rt ops s)"
  by (simp add: run_def)

lemma log_calls_snoc:
  "log_calls (cs @ [(c1, c2, level, message)]) = log_calls cs @ [Log c1 c2 level message]"
  by (simp add: log_calls_def)

lemma step_keeps_range:
  assumes "0 < bufferSize s" and "index_in_range s"
  shows "0 < bufferSize (step rt o' s) \<and> index_in_range (step rt o' s)"
proof (cases o')
  case (Log c1 c2 level message)
  with assms show ?thesis
    by (simp add: log_keeps_bufferSize log_keeps_range)
next
  case Flush
  with assms show ?thesis
    by (simp add: flush_keeps flush_keeps_range)
next
  case Close
  with assms show ?thesis
    by (simp add: close_keeps index_in_range_iff)
next
  case Tick
  with assms show ?thesis
    by (simp add: flushLoop_def flush_keeps flush_keeps_range)
qed

lemma run_keeps_range:
  "0 < bufferSize s \<Longrightarrow> index_in_range s \<Longrightarrow>
   0 < bufferSize (run rt ops s) \<and> index_in_range (run rt ops s)"
  unfolding run_def
  by (induction ops arbitrary: s) (simp_all add: step_keeps_range)

text \<open>What every logger satisfies from its construction on.\<close>

lemma step_invariant:
  assumes "\<not> isFlushing s" and "\<not> ended (stdout s)"
    and "map fst (fileStreams s) = map fst initializeStreams"
    and "\<not> isClosed s \<longrightarrow> \<not> ended (other s) \<and> list_all (\<lambda>(k, st). \<not> ended st) (fileStreams s)"
  shows "\<not> isFlushing (step rt o' s) \<and> \<not> ended (stdout (step rt o' s)) \<and>
         map fst (fileStreams (step rt o' s)) = map fst initializeStreams \<and>
         (\<not> isClosed (step rt o' s) \<longrightarrow>
            \<not> ended (other (step rt o' s)) \<and>
            list_all (\<lambda>(k, st). \<not> ended st) (fileStreams (step rt o' s)))"
proof (cases o')
  case (Log c1 c2 level message)
  with assms show ?thesis
    by (simp add: log_config log_streams log_live_files)
next
  case Flush
  with assms show ?thesis
    by (simp add: flush_config flush_streams fileStreams_flush)
next
  case Close
  with assms show ?thesis
    by (simp add: close_streams isClosed_close)
next
  case Tick
  with assms show ?thesis
    by (simp add: flushLoop_def flush_config flush_streams fileStreams_flush)
qed

lemma run_invariant:
  assumes "\<not> isFlushing s" and "\<not> ended (stdout s)"
    and "map fst (fileStreams s) = map fst initializeStreams"
    and "\<not> isClosed s \<longrightarrow> \<not> ended (other s) \<and> list_all (\<lambda>(k, st). \<not> ended st) (fileStreams s)"
  shows "\<not> isFlushing (run rt ops s) \<and> \<not> ended (stdout (run rt ops s)) \<and>
         map fst (fileStreams (run rt ops s)) = map fst initializeStreams \<and>
         (\<not> isClosed (run rt ops s) \<longrightarrow>
            \<not> ended (other (run rt ops s)) \<and>
            list_all (\<lambda>(k, st). \<not> ended st) (fileStreams (run rt ops s)))"
proof (induction ops rule: rev_induct)
  case Nil
  with assms show ?case by (simp add: run_def)
next
  case (snoc o' ops)
  then show ?case
    unfolding run_snoc by (intro step_invariant) simp_all
qed

lemma constructed_active:
  assumes "Logger cwd stackText opts = Inr s0" and "\<not> isClosed (run rt ops s0)"
  shows "active (run rt ops s0)"
proof -
  have "\<not> isFlushing s0" "\<not> ended (stdout s0)"
    "map fst (fileStreams s0) = map fst initializeStreams"
    "\<not> isClosed s0 \<longrightarrow> \<not> ended (other s0) \<and> list_all (\<lambda>(k, st). \<not> ended st) (fileStreams s0)"
    by (simp_all add: new_logger_fields [OF assms(1)] new_stream_def initializeStreams_def)
  from run_invariant [OF this, of rt ops] assms(2) show ?thesis
    by (simp add: active_def)
qed

lemma update_fill:
  "k < n \<Longrightarrow> length ls = k \<Longrightarrow>
   (map Some ls @ replicate (n - k) None)[k := Some l] =
     map Some (ls @ [l]) @ replicate (n - Suc k) None"
proof -
  assume a: "k < n" "length ls = k"
  then obtain m where m: "n - k = Suc m" by (cases "n - k") auto
  then have "n - Suc k = m" by simp
  with a m show ?thesis by (simp add: list_update_append)
qed

lemma run_buffered:
  assumes "\<not> isClosed s" and "\<not> inmediate s"
    and "index s = Num 0" and "buffer s = replicate (bufferSize s) None"
    and "\<forall>(c1, c2, level, message) \<in> set cs. level \<noteq> ''warn'' \<and> level \<noteq> ''error'' \<and> formats rt message"
    and "length cs < bufferSize s"
  shows "\<exists>fs. run rt (log_calls cs) s =
           s\<lparr>buffer := map Some (console_lines rt s cs) @ replicate (bufferSize s - length cs) None,
             index := Num (length cs), fileStreams := fs\<rparr>"
  using assms(5,6)
proof (induction cs rule: rev_induct)
  case Nil
  have "s = s\<lparr>buffer := buffer s, index := index s, fileStreams := fileStreams s\<rparr>" by simp
  then have "s = s\<lparr>buffer := replicate (bufferSize s) None, index := Num 0, fileStreams := fileStreams s\<rparr>"
    using assms(3,4) by simp
  then show ?case
    by (intro exI [of _ "fileStreams s"]) (simp add: run_def log_calls_def console_lines_def)
next
  case (snoc c cs)
  obtain c1 c2 level message where c: "c = (c1, c2, level, message)"
    by (cases c) auto
  from snoc.prems c have l: "level \<noteq> ''warn''" "level \<noteq> ''error''" "formats rt message"
    and len: "Suc (length cs) < bufferSize s"
    by auto
  from snoc obtain fs where r: "run rt (log_calls cs) s =
      s\<lparr>buffer := map Some (console_lines rt s cs) @ replicate (bufferSize s - length cs) None,
        index := Num (length cs), fileStreams := fs\<rparr>"
    by auto
  let ?s' = "run rt (log_calls cs) s"
  have f: "\<not> isClosed ?s'" "\<not> inmediate ?s'" "index ?s' = Num (length cs)"
    "Suc (length cs) < bufferSize ?s'" "length cs < length (buffer ?s')"
    "source ?s' = source s" "highResTimestamps ?s' = highResTimestamps s"
    using assms(1,2) len by (simp_all add: r console_lines_def)
  from log_buffered_state [OF f(1,2) l f(3,4,5)] obtain fs' where
    "snd (log rt c1 c2 level message ?s') =
       ?s'\<lparr>buffer := (buffer ?s')[length cs := Some (console_variant rt ?s' c1 level message)],
           index := Num (Suc (length cs)), fileStreams := fs'\<rparr>"
    by blast
  then have "snd (log rt c1 c2 level message ?s') =
       s\<lparr>buffer := (map Some (console_lines rt s cs) @ replicate (bufferSize s - length cs) None)
                      [length cs := Some (console_variant rt s c1 level message)],
           index := Num (Suc (length cs)), fileStreams := fs'\<rparr>"
    unfolding variant_cong(1) [OF f(6,7)] by (simp add: r)
  moreover have "(map Some (console_lines rt s cs) @ replicate (bufferSize s - length cs) None)
                      [length cs := Some (console_variant rt s c1 level message)] =
      map Some (console_lines rt s (cs @ [c])) @ replicate (bufferSize s - length (cs @ [c])) None"
    using update_fill [of "length cs" "bufferSize s" "console_lines rt s cs"] len
    by (simp add: console_lines_def c)
  ultimately show ?case
    by (auto simp: c log_calls_snoc run_snoc)
qed

lemma butlast_fill:
  "length ls = k \<Longrightarrow> (map Some ls @ replicate (Suc 0) None)[k := Some l] = map Some (ls @ [l])"
  by (simp add: list_update_append)

lemma run_full:
  assumes "\<not> isClosed s" and "\<not> isFlushing s" and "\<not> inmediate s"
    and "index s = Num 0" and "buffer s = replicate (bufferSize s) None"
    and "\<forall>(c1, c2, level, message) \<in> set cs. level \<noteq> ''warn'' \<and> level \<noteq> ''error'' \<and> formats rt message"
    and "length cs = bufferSize s" and "cs \<noteq> []"
  shows "\<exists>fs. run rt (log_calls cs) s =
           (write_console (join nl (console_lines rt s cs) @ nl) s)\<lparr>fileStreams := fs\<rparr>"
proof -
  obtain c1 c2 level message where c: "last cs = (c1, c2, level, message)"
    by (cases "last cs") auto
  from assms(8) have split: "cs = butlast cs @ [(c1, c2, level, message)]"
    using c by (metis append_butlast_last_id)
  let ?cs' = "butlast cs"
  let ?n = "bufferSize s"
  from assms(7,8) have pos: "0 < ?n"
    by (metis length_greater_0_conv)
  with assms(7) have len: "length ?cs' < ?n" "Suc (length ?cs') = ?n"
    by simp_all
  from assms(6) have all': "\<forall>(c1, c2, level, message) \<in> set ?cs'.
      level \<noteq> ''warn'' \<and> level \<noteq> ''error'' \<and> formats rt message"
    by (meson in_set_butlastD)
  from assms(6) assms(8) c have l: "level \<noteq> ''warn''" "level \<noteq> ''error''" "formats rt message"
    using last_in_set [OF assms(8)] by auto
  from run_buffered [OF assms(1,3,4,5) all' len(1)] obtain fs where
    r: "run rt (log_calls ?cs') s =
          s\<lparr>buffer := map Some (console_lines rt s ?cs') @ replicate (?n - length ?cs') None,
            index := Num (length ?cs'), fileStreams := fs\<rparr>"
    by blast
  let ?s' = "run rt (log_calls ?cs') s"
  from len have one: "?n - length ?cs' = Suc 0" by simp
  have f: "\<not> isClosed ?s'" "\<not> inmediate ?s'" "index ?s' = Num (length ?cs')"
    "Suc (length ?cs') = bufferSize ?s'" "length ?cs' < length (buffer ?s')"
    "source ?s' = source s" "highResTimestamps ?s' = highResTimestamps s"
    using assms(1,3) len by (simp_all add: r console_lines_def)
  from log_wrap_state [OF f(1,2) l f(3,4,5)] obtain fs' where
    w: "snd (log rt c1 c2 level message ?s') =
       (flush (?s'\<lparr>buffer := (buffer ?s')[length ?cs' := Some (console_variant rt ?s' c1 level message)],
                   index := Num 0\<rparr>))\<lparr>fileStreams := fs'\<rparr>"
    by blast
  have lines: "console_lines rt s cs = console_lines rt s ?cs' @ [console_variant rt s c1 level message]"
    by (subst split) (simp add: console_lines_def)
  from assms(7) pos have one': "bufferSize s - (length cs - Suc 0) = Suc 0"
    by simp
  have b0: "buffer ?s' = map Some (console_lines rt s ?cs') @ [None]"
    by (simp add: r one')
  have b: "(buffer ?s')[length ?cs' := Some (console_variant rt ?s' c1 level message)] =
        map Some (console_lines rt s cs)"
    unfolding variant_cong(1) [OF f(6,7)] lines b0
    using list_update_length [of "map Some (console_lines rt s ?cs')" None "[]"
        "Some (console_variant rt s c1 level message)"]
    by (simp add: console_lines_def)
  let ?x = "?s'\<lparr>buffer := map Some (console_lines rt s cs), index := Num 0\<rparr>"
  have ne: "\<forall>t \<in> set (console_lines rt s cs). t \<noteq> []"
    using assms(6) by (auto simp: console_lines_def console_variant_nonempty)
  have cl: "length (console_lines rt s cs) = ?n"
    using assms(7) by (simp add: console_lines_def)
  from flush_loop_full [OF ne, of 0] have
    loop: "flush_loop 0 (bufferSize ?x) (buffer ?x) [] = (replicate ?n None, console_lines rt s cs)"
    by (simp add: cl r)
  have x: "\<not> isFlushing ?x" "\<not> isClosed ?x"
    using assms(1,2) by (simp_all add: r)
  from assms(8) have "console_lines rt s cs \<noteq> []"
    by (simp add: console_lines_def)
  with flush_effect [OF x loop] have
    fl: "flush ?x = write_console (join nl (console_lines rt s cs) @ nl)
                      (?x\<lparr>buffer := replicate ?n None, index := Num 0\<rparr>)"
    by simp
  have "?x\<lparr>buffer := replicate ?n None, index := Num 0\<rparr> = s\<lparr>fileStreams := fs\<rparr>"
    using assms(4,5) by (intro logger.equality) (simp_all add: r)
  with fl w b have
    "snd (log rt c1 c2 level message ?s') =
       (write_console (join nl (console_lines rt s cs) @ nl) (s\<lparr>fileStreams := fs\<rparr>))
         \<lparr>fileStreams := fs'\<rparr>"
    by simp
  moreover have "(write_console (join nl (console_lines rt s cs) @ nl) (s\<lparr>fileStreams := fs\<rparr>))
         \<lparr>fileStreams := fs'\<rparr> =
      (write_console (join nl (console_lines rt s cs) @ nl) s)\<lparr>fileStreams := fs'\<rparr>"
    by (cases "writeStream s") (simp_all add: write_console_def)
  moreover have "run rt (log_calls cs) s = snd (log rt c1 c2 level message ?s')"
    by (subst split) (simp add: log_calls_snoc run_snoc)
  ultimately show ?thesis by auto
qed

lemma run_info_files:
  assumes "\<not> isClosed s" and "map_of (fileStreams s) ''info'' = Some st" and "\<not> ended st"
    and "\<forall>(c1, c2, level, message) \<in> set cs. level = ''info'' \<and> formats rt message"
  shows "\<not> isClosed (run rt (log_calls cs) s) \<and>
         source (run rt (log_calls cs) s) = source s \<and>
         highResTimestamps (run rt (log_calls cs) s) = highResTimestamps s \<and>
         map_of (fileStreams (run rt (log_calls cs) s)) ''info'' =
           Some (st\<lparr>chunks := chunks st @ file_lines rt s cs\<rparr>)"
  using assms(4)
proof (induction cs rule: rev_induct)
  case Nil
  with assms(1,2) show ?case
    by (simp add: run_def log_calls_def file_lines_def)
next
  case (snoc c cs)
  obtain c1 c2 level message where c: "c = (c1, c2, level, message)"
    by (cases c) auto
  with snoc.prems have l: "level = ''info''" "formats rt message"
    by auto
  let ?s' = "run rt (log_calls cs) s"
  let ?st' = "st\<lparr>chunks := chunks st @ file_lines rt s cs\<rparr>"
  from snoc have ih: "\<not> isClosed ?s'" "source ?s' = source s"
    "highResTimestamps ?s' = highResTimestamps s"
    "map_of (fileStreams ?s') ''info'' = Some ?st'"
    by auto
  have r: "run rt (log_calls (cs @ [c])) s = snd (log rt c1 c2 ''info'' message ?s')"
    by (simp add: c l log_calls_snoc run_snoc)
  have "fileStreams (snd (log rt c1 c2 ''info'' message ?s')) =
      update_stream ''info'' (write_stream (file_variant rt ?s' c2 ''info'' message @ nl) ?st')
        (fileStreams ?s')"
    by (rule log_files [OF ih(1) l(2) ih(4)])
  then have "map_of (fileStreams (snd (log rt c1 c2 ''info'' message ?s'))) ''info'' =
      Some (write_stream (file_variant rt s c2 ''info'' message @ nl) ?st')"
    by (simp add: map_of_update_stream ih(4) variant_cong(2) [OF ih(2,3)])
  moreover have "write_stream (file_variant rt s c2 ''info'' message @ nl) ?st' =
      st\<lparr>chunks := chunks st @ file_lines rt s (cs @ [c])\<rparr>"
    using assms(3) by (simp add: write_stream_def file_lines_def c l)
  ultimately show ?case
    unfolding r using ih(1,2,3) by (simp add: log_config)
qed

lemma take_calls:
  assumes "\<forall>(c1, c2, level, message) \<in> set cs. P level message"
  shows "\<forall>(c1, c2, level, message) \<in> set (take k cs). P level message"
  using assms by (meson in_set_takeD)

subsection \<open>The concrete inputs\<close>

lemma demo_format:
  "formatValue (stackDepth demo_rt) (heap demo_rt) (stringify demo_rt) (Prim t) = Inr t"
  by (simp add: demo_rt_def formatValue_Prim)

lemma demo_formats: "formats demo_rt (Prim t)"
  by (simp add: formats_Prim demo_rt_def)

lemma demo_timestamp: "timestamp (demo_logger n im ws) demo_clock = ''2024-01-01T00:00:00.000Z''"
  by (simp add: timestamp_def demo_logger_def demo_clock_def)

lemma demo_info_line:
  "console_variant demo_rt (demo_logger n im ws) demo_clock ''info'' (Prim t) =
     ''[2024-01-01T00:00:00.000Z] '' @ esc @ ''[32m[INFO] HTTPRequest'' @ esc @ ''[0m: '' @ t"
  by (simp add: console_variant_def formatMessage_console [OF demo_format] color_known
      upper_known reset_def demo_timestamp) (simp add: demo_logger_def)

lemma demo_info_file_line:
  "file_variant demo_rt (demo_logger n im ws) demo_clock ''info'' (Prim t) =
     ''[2024-01-01T00:00:00.000Z] [INFO] HTTPRequest: '' @ t"
  by (simp add: file_variant_def formatMessage_file [OF demo_format] upper_known demo_timestamp)
     (simp add: demo_logger_def)

lemma demo_warn_line:
  "console_variant demo_rt (demo_logger n im ws) demo_clock ''warn'' (Prim t) =
     ''[2024-01-01T00:00:00.000Z] '' @ esc @ ''[33m[WARN] HTTPRequest'' @ esc @ ''[0m: '' @ t"
  by (simp add: console_variant_def formatMessage_console [OF demo_format] color_known
      upper_known reset_def demo_timestamp) (simp add: demo_logger_def)

lemma demo_info_buffered:
  "info demo_rt demo_clock demo_clock (Prim t) (demo_logger 2 False ws) =
     (Inr True,
      (demo_logger 2 False ws)
        \<lparr>buffer := [Some (''[2024-01-01T00:00:00.000Z] '' @ esc @ ''[32m[INFO] HTTPRequest'' @ esc @ ''[0m: '' @ t), None],
         index := Num 1,
         fileStreams :=
           [(''info'', \<lparr>chunks = [''[2024-01-01T00:00:00.000Z] [INFO] HTTPRequest: '' @ t @ nl], ended = False\<rparr>),
            (''debug'', new_stream), (''error'', new_stream), (''warn'', new_stream)]\<rparr>)"
proof -
  have "log demo_rt demo_clock demo_clock ''info'' (Prim t) (demo_logger 2 False ws) =
     (Inr True,
      (demo_logger 2 False ws)
        \<lparr>buffer := (buffer (demo_logger 2 False ws))[0 := Some (console_variant demo_rt (demo_logger 2 False ws) demo_clock ''info'' (Prim t))],
         index := Num (Suc 0),
         fileStreams := update_stream ''info''
           (write_stream (file_variant demo_rt (demo_logger 2 False ws) demo_clock ''info'' (Prim t) @ nl) new_stream)
           (fileStreams (demo_logger 2 False ws))\<rparr>)"
    by (rule log_buffered [OF _ _ _ _ demo_formats])
       (simp_all add: demo_logger_def initializeStreams_def)
  then show ?thesis
    unfolding info_def demo_info_line demo_info_file_line
    by (simp add: demo_logger_def initializeStreams_def update_stream_def write_stream_def
        new_stream_def numeral_2_eq_2)
qed

lemma demo_heap_cells:
  "demo_heap 0 = MapObj [(Prim ''self'', Ref 0)]" "demo_heap 1 = SetObj [Ref 1]"
  "demo_heap (Suc 0) = SetObj [Ref 1]"
  by (simp_all add: demo_heap_def)

lemma demo_named:
  "named ''/proj'' demo_stack =
     [\<lparr>identifier' = ''new HTTPRequest'', path = ''/proj/src/HTTPRequest.ts'', line = 30\<rparr>,
      \<lparr>identifier' = ''new Logger'', path = ''/proj/src/Logger.ts'', line = 56\<rparr>]"
  by code_simp

lemma demo_named_empty: "named ''/proj'' (''Error'' @ nl @ ''    at Logger.getCallerClass (/proj/src/SourceClass.ts:18:11)'' @ nl @ ''    at /proj/src/main.ts:3:13'') = []"
  by code_simp

lemma demo_bare: "space_bare_identifier ''new HTTPRequest'' = ''HTTPRequest''"
  by (simp add: space_bare_identifier_def)

lemma demo_caller: "getCallerClass ''/proj'' demo_stack = ''HTTPRequest''"
  by code_simp

lemma demo_new:
  "0 \<le> n \<Longrightarrow> n \<le> 4294967295 \<Longrightarrow>
   Logger ''/proj'' demo_stack (demo_options n im ws) = Inr (demo_logger (nat n) im ws)"
  by (simp add: Logger_def demo_options_def demo_logger_def demo_caller)

lemma demo_active: "active (demo_logger n im ws)"
  by (simp add: active_def demo_logger_def initializeStreams_def new_stream_def)

lemma demo_empty: "empty_buffer (demo_logger n im ws)"
  by (simp add: empty_buffer_def demo_logger_def)

section \<open>The properties\<close>

subsection \<open>Closing with entries pending\<close>

text \<open>
  C1: \<open>close\<close> on an active logger with a pending buffered entry should write the
  entry to the console sink before the sinks are closed. It does not: for a logger of
  buffer size 2 in buffered mode after one \<open>info\<close> call, \<open>close\<close> leaves the console
  sink empty and the entry in the buffer, where a \<open>flush\<close> of the same logger writes it.
\<close>

theorem close_loses_pending_entry:
  "(let s1 = snd (info demo_rt demo_clock demo_clock (Prim ''a'') (demo_logger 2 False ProcessStdout));
        pending = ''[2024-01-01T00:00:00.000Z] '' @ esc @ ''[32m[INFO] HTTPRequest'' @ esc @ ''[0m: a''
    in \<not> isClosed s1 \<and> index s1 = Num 1 \<and> buffer s1 = [Some pending, None] \<and>
       chunks (console s1) = [] \<and>
       isClosed (close s1) \<and> chunks (console (close s1)) = [] \<and>
       buffer (close s1) = [Some pending, None] \<and>
       chunks (console (flush s1)) = [pending @ nl])"
proof -
  define s1 where "s1 = snd (info demo_rt demo_clock demo_clock (Prim ''a'') (demo_logger 2 False ProcessStdout))"
  define pending where "pending = ''[2024-01-01T00:00:00.000Z] '' @ esc @ ''[32m[INFO] HTTPRequest'' @ esc @ ''[0m: a''"
  have f: "\<not> isClosed s1" "index s1 = Num 1" "buffer s1 = [Some pending, None]"
    "stdout s1 = new_stream" "writeStream s1 = ProcessStdout" "\<not> isFlushing s1" "bufferSize s1 = 2"
    by (simp_all add: s1_def pending_def demo_info_buffered) (simp_all add: demo_logger_def)
  have c: "buffer (close s1) = buffer s1" "stdout (close s1) = stdout s1"
    "writeStream (close s1) = writeStream s1"
    by (simp_all add: close_effect [OF f(1)])
  have "pending \<noteq> []" by (simp add: pending_def)
  then have "flush_loop 0 (length [pending] + 1) (map Some [pending] @ replicate 1 None) [] =
      (replicate (length [pending] + 1) None, [pending])"
    by (intro flush_loop_full) simp
  then have l: "flush_loop 0 (bufferSize s1) (buffer s1) [] = ([None, None], [pending])"
    by (simp add: f numeral_2_eq_2)
  have "chunks (console (flush s1)) = [pending @ nl]"
    by (simp add: flush_effect [OF f(6) f(1) l] write_console_def console_def f write_stream_def new_stream_def)
  then show ?thesis
    unfolding Let_def s1_def [symmetric] pending_def [symmetric]
    by (simp add: f c console_def isClosed_close new_stream_def)
qed

subsection \<open>The immediate path and the configured console sink\<close>

text \<open>
  C2: with a \<^verbatim>\<open>writeStream\<close> other than \<^verbatim>\<open>process.stdout\<close>, a call on
  the immediate path should write its console line to that stream, where flushes write.
  It does not: an \<open>info\<close> in immediate mode, and a \<open>warn\<close> in buffered mode, leave the
  configured stream empty and write to \<^verbatim>\<open>process.stdout\<close>; a flushed
  \<open>info\<close> of the same logger goes to the configured stream.
\<close>

theorem immediate_write_bypasses_writeStream:
  "(let s1 = snd (info demo_rt demo_clock demo_clock (Prim ''x'') (demo_logger 2 True OtherStream));
        s2 = snd (warn demo_rt demo_clock demo_clock (Prim ''x'') (demo_logger 2 False OtherStream));
        s3 = flush (snd (info demo_rt demo_clock demo_clock (Prim ''x'') (demo_logger 2 False OtherStream)))
    in writeStream s1 = OtherStream \<and> chunks (other s1) = [] \<and>
       chunks (stdout s1) =
         [''[2024-01-01T00:00:00.000Z] '' @ esc @ ''[32m[INFO] HTTPRequest'' @ esc @ ''[0m: x'' @ nl] \<and>
       writeStream s2 = OtherStream \<and> chunks (other s2) = [] \<and>
       chunks (stdout s2) =
         [''[2024-01-01T00:00:00.000Z] '' @ esc @ ''[33m[WARN] HTTPRequest'' @ esc @ ''[0m: x'' @ nl] \<and>
       writeStream s3 = OtherStream \<and> chunks (stdout s3) = [] \<and>
       chunks (other s3) =
         [''[2024-01-01T00:00:00.000Z] '' @ esc @ ''[32m[INFO] HTTPRequest'' @ esc @ ''[0m: x'' @ nl])"
proof -
  define line where "line = ''[2024-01-01T00:00:00.000Z] '' @ esc @ ''[32m[INFO] HTTPRequest'' @ esc @ ''[0m: x''"
  have "log demo_rt demo_clock demo_clock ''info'' (Prim ''x'') (demo_logger 2 True OtherStream) =
      (Inr True,
       (demo_logger 2 True OtherStream)
         \<lparr>stdout := write_stream
            (console_variant demo_rt (demo_logger 2 True OtherStream) demo_clock ''info'' (Prim ''x'') @ nl)
            (stdout (demo_logger 2 True OtherStream)),
          fileStreams := update_stream ''info''
            (write_stream (file_variant demo_rt (demo_logger 2 True OtherStream) demo_clock ''info'' (Prim ''x'') @ nl)
               new_stream)
            (fileStreams (demo_logger 2 True OtherStream))\<rparr>)"
    by (rule log_immediate [OF _ _ demo_formats]) (simp_all add: demo_logger_def initializeStreams_def)
  then have a: "writeStream (snd (info demo_rt demo_clock demo_clock (Prim ''x'') (demo_logger 2 True OtherStream))) = OtherStream"
    "chunks (other (snd (info demo_rt demo_clock demo_clock (Prim ''x'') (demo_logger 2 True OtherStream)))) = []"
    "chunks (stdout (snd (info demo_rt demo_clock demo_clock (Prim ''x'') (demo_logger 2 True OtherStream)))) = [line @ nl]"
    unfolding info_def demo_info_line
    by (simp_all add: demo_logger_def write_stream_def new_stream_def line_def)
  have "log demo_rt demo_clock demo_clock ''warn'' (Prim ''x'') (demo_logger 2 False OtherStream) =
      (Inr True,
       (demo_logger 2 False OtherStream)
         \<lparr>stdout := write_stream
            (console_variant demo_rt (demo_logger 2 False OtherStream) demo_clock ''warn'' (Prim ''x'') @ nl)
            (stdout (demo_logger 2 False OtherStream)),
          fileStreams := update_stream ''warn''
            (write_stream (file_variant demo_rt (demo_logger 2 False OtherStream) demo_clock ''warn'' (Prim ''x'') @ nl)
               new_stream)
            (fileStreams (demo_logger 2 False OtherStream))\<rparr>)"
    by (rule log_immediate [OF _ _ demo_formats]) (simp_all add: demo_logger_def initializeStreams_def)
  then have b: "writeStream (snd (warn demo_rt demo_clock demo_clock (Prim ''x'') (demo_logger 2 False OtherStream))) = OtherStream"
    "chunks (other (snd (warn demo_rt demo_clock demo_clock (Prim ''x'') (demo_logger 2 False OtherStream)))) = []"
    "chunks (stdout (snd (warn demo_rt demo_clock demo_clock (Prim ''x'') (demo_logger 2 False OtherStream)))) =
       [''[2024-01-01T00:00:00.000Z] '' @ esc @ ''[33m[WARN] HTTPRequest'' @ esc @ ''[0m: x'' @ nl]"
    unfolding warn_def demo_warn_line
    by (simp_all add: demo_logger_def write_stream_def new_stream_def)
  define s where "s = snd (info demo_rt demo_clock demo_clock (Prim ''x'') (demo_logger 2 False OtherStream))"
  have f: "\<not> isClosed s" "buffer s = [Some line, None]" "other s = new_stream" "stdout s = new_stream"
    "writeStream s = OtherStream" "\<not> isFlushing s" "bufferSize s = 2"
    by (simp_all add: s_def line_def demo_info_buffered) (simp_all add: demo_logger_def)
  have "line \<noteq> []" by (simp add: line_def)
  then have "flush_loop 0 (length [line] + 1) (map Some [line] @ replicate 1 None) [] =
      (replicate (length [line] + 1) None, [line])"
    by (intro flush_loop_full) simp
  then have l: "flush_loop 0 (bufferSize s) (buffer s) [] = ([None, None], [line])"
    by (simp add: f numeral_2_eq_2)
  have c: "writeStream (flush s) = OtherStream" "chunks (stdout (flush s)) = []"
    "chunks (other (flush s)) = [line @ nl]"
    by (simp_all add: flush_effect [OF f(6) f(1) l] write_console_def f write_stream_def new_stream_def)
  show ?thesis
    unfolding Let_def s_def [symmetric]
    using a b c by (simp add: line_def)
qed

subsection \<open>Rejection after close\<close>

text \<open>
  C3: on a logger that \<open>close\<close> has been called on, \<open>log\<close>, \<open>info\<close>, \<open>warn\<close>,
  \<open>error\<close>, and \<open>debug\<close> in development mode, all throw the closed-logger error and
  leave the logger exactly as it was: nothing is written to the console or to a file
  sink, and the buffer and the write index are untouched.
\<close>

theorem closed_logger_rejects:
  "log rt c1 c2 level message (close s) = (Inl LoggerClosed, close s) \<and>
   info rt c1 c2 message (close s) = (Inl LoggerClosed, close s) \<and>
   warn rt c1 c2 message (close s) = (Inl LoggerClosed, close s) \<and>
   error rt c1 c2 message (close s) = (Inl LoggerClosed, close s) \<and>
   debug (rt\<lparr>NODE_ENV := Some ''development''\<rparr>) c1 c2 message (close s) =
     (Inl LoggerClosed, close s)"
  by (simp add: log_def info_def warn_def error_def debug_def isClosed_close)

theorem closed_logger_rejects_witness:
  "info demo_rt demo_clock demo_clock (Prim ''late'') (close (demo_logger 2 False ProcessStdout)) =
     (Inl LoggerClosed, close (demo_logger 2 False ProcessStdout)) \<and>
   error demo_rt demo_clock demo_clock (Prim ''late'') (close (demo_logger 2 False ProcessStdout)) =
     (Inl LoggerClosed, close (demo_logger 2 False ProcessStdout))"
  using closed_logger_rejects
    [of demo_rt demo_clock demo_clock "''info''" "Prim ''late''" "demo_logger 2 False ProcessStdout"]
  by simp

subsection \<open>A full buffer flushes itself\<close>

text \<open>
  C4, as amended: on an active logger in buffered mode with an empty buffer of size at
  least 1, logging as many \<open>info\<close> or \<open>debug\<close> entries as the buffer has slots,
  with no flush in between, manual or by the timer, leaves the index at
  \<open>bufferSize - 1\<close> and the console sink untouched before the last call; the last call
  wraps the index to 0 and flushes at once: the console sink receives one chunk, the
  console lines of all the calls in call order, joined by newlines and ended by one, and
  every slot is empty again. The case of the buffer size 2 with \<open>info a\<close> and
  \<open>info b\<close> is the instance that follows the theorem. Every constructed logger that
  is not closed is active (\<open>constructed_active\<close>).
\<close>

theorem wrap_triggers_flush:
  assumes "active s" and "empty_buffer s" and "\<not> inmediate s"
    and "length cs = bufferSize s" and "cs \<noteq> []"
    and "\<forall>(c1, c2, level, message) \<in> set cs. level \<in> {''info'', ''debug''} \<and> formats rt message"
  shows "index (run rt (log_calls (butlast cs)) s) = Num (bufferSize s - 1) \<and>
         chunks (console (run rt (log_calls (butlast cs)) s)) = chunks (console s) \<and>
         index (run rt (log_calls cs) s) = Num 0 \<and>
         buffer (run rt (log_calls cs) s) = replicate (bufferSize s) None \<and>
         chunks (console (run rt (log_calls cs) s)) =
           chunks (console s) @ [join nl (console_lines rt s cs) @ nl]"
proof -
  from assms(1,2) have st: "\<not> isClosed s" "\<not> isFlushing s" "index s = Num 0"
    "buffer s = replicate (bufferSize s) None"
    by (simp_all add: active_def empty_buffer_def)
  from assms(6) have all: "\<forall>(c1, c2, level, message) \<in> set cs.
      level \<noteq> ''warn'' \<and> level \<noteq> ''error'' \<and> formats rt message"
    by auto
  then have all': "\<forall>(c1, c2, level, message) \<in> set (butlast cs).
      level \<noteq> ''warn'' \<and> level \<noteq> ''error'' \<and> formats rt message"
    by (meson in_set_butlastD)
  from assms(4,5) have pos: "0 < bufferSize s"
    by (metis length_greater_0_conv)
  with assms(4) have len: "length (butlast cs) < bufferSize s"
    "length (butlast cs) = bufferSize s - 1"
    by simp_all
  from run_buffered [OF st(1) assms(3) st(3,4) all' len(1)] obtain fs where
    "run rt (log_calls (butlast cs)) s =
       s\<lparr>buffer := map Some (console_lines rt s (butlast cs)) @
                     replicate (bufferSize s - length (butlast cs)) None,
         index := Num (length (butlast cs)), fileStreams := fs\<rparr>"
    by blast
  then have "index (run rt (log_calls (butlast cs)) s) = Num (length (butlast cs))"
    "console (run rt (log_calls (butlast cs)) s) = console s"
    by (simp, intro console_cong) simp_all
  then have before: "index (run rt (log_calls (butlast cs)) s) = Num (bufferSize s - 1)"
    "chunks (console (run rt (log_calls (butlast cs)) s)) = chunks (console s)"
    using len(2) by simp_all
  from run_full [OF st(1,2) assms(3) st(3,4) all assms(4,5)] obtain fs' where
    "run rt (log_calls cs) s =
       (write_console (join nl (console_lines rt s cs) @ nl) s)\<lparr>fileStreams := fs'\<rparr>"
    by blast
  then have after: "index (run rt (log_calls cs) s) = Num 0"
    "buffer (run rt (log_calls cs) s) = replicate (bufferSize s) None"
    "chunks (console (run rt (log_calls cs) s)) =
       chunks (console s) @ [join nl (console_lines rt s cs) @ nl]"
    using st(3,4) console_write_console [OF active_console [OF assms(1)]]
    by (simp_all add: write_console_fields console_set_files)
  from before after show ?thesis by simp
qed

theorem wrap_triggers_flush_witness:
  "(let s1 = snd (info demo_rt demo_clock demo_clock (Prim ''a'') (demo_logger 2 False ProcessStdout));
        s2 = snd (info demo_rt demo_clock demo_clock (Prim ''b'') s1)
    in index s1 = Num 1 \<and> chunks (stdout s1) = [] \<and>
       index s2 = Num 0 \<and> buffer s2 = [None, None] \<and>
       chunks (stdout s2) =
         [''[2024-01-01T00:00:00.000Z] '' @ esc @ ''[32m[INFO] HTTPRequest'' @ esc @ ''[0m: a'' @ nl @
          ''[2024-01-01T00:00:00.000Z] '' @ esc @ ''[32m[INFO] HTTPRequest'' @ esc @ ''[0m: b'' @ nl])"
proof -
  define s where "s = demo_logger 2 False ProcessStdout"
  define s1 where "s1 = snd (info demo_rt demo_clock demo_clock (Prim ''a'') s)"
  define s2 where "s2 = snd (info demo_rt demo_clock demo_clock (Prim ''b'') s1)"
  define cs where
    "cs = [(demo_clock, demo_clock, ''info'', Prim ''a''), (demo_clock, demo_clock, ''info'', Prim ''b'')]"
  have h: "active s" "empty_buffer s" "\<not> inmediate s" "length cs = bufferSize s" "cs \<noteq> []"
    "\<forall>(c1, c2, level, message) \<in> set cs. level \<in> {''info'', ''debug''} \<and> formats demo_rt message"
    by (simp_all add: s_def cs_def demo_active demo_empty demo_formats) (simp_all add: demo_logger_def)
  have r: "run demo_rt (log_calls (butlast cs)) s = s1" "run demo_rt (log_calls cs) s = s2"
    by (simp_all add: run_def log_calls_def info_def cs_def s1_def s2_def)
  have l: "join nl (console_lines demo_rt s cs) @ nl =
     ''[2024-01-01T00:00:00.000Z] '' @ esc @ ''[32m[INFO] HTTPRequest'' @ esc @ ''[0m: a'' @ nl @
     ''[2024-01-01T00:00:00.000Z] '' @ esc @ ''[32m[INFO] HTTPRequest'' @ esc @ ''[0m: b'' @ nl"
    by (simp add: console_lines_def demo_info_line cs_def s_def)
  have w: "console s1 = stdout s1" "console s2 = stdout s2" "chunks (console s) = []"
    "bufferSize s - 1 = 1" "replicate (bufferSize s) None = [None, None]"
    by (simp_all add: console_def s1_def s2_def info_def log_config)
       (simp_all add: s_def demo_logger_def new_stream_def numeral_2_eq_2)
  from wrap_triggers_flush [OF h] have
    "index s1 = Num 1 \<and> chunks (stdout s1) = [] \<and> index s2 = Num 0 \<and> buffer s2 = [None, None] \<and>
     chunks (stdout s2) =
       [''[2024-01-01T00:00:00.000Z] '' @ esc @ ''[32m[INFO] HTTPRequest'' @ esc @ ''[0m: a'' @ nl @
        ''[2024-01-01T00:00:00.000Z] '' @ esc @ ''[32m[INFO] HTTPRequest'' @ esc @ ''[0m: b'' @ nl]"
    unfolding r l w by simp
  then show ?thesis
    unfolding Let_def s2_def s1_def s_def .
qed

text \<open>
  Without a manual flush, but with one firing of the flush timer between the two calls,
  the second of two entries does not wrap a buffer of size 2: the timer has written the
  first entry and reset the index, so the second call leaves the index at 1, its entry
  pending, and flushes nothing.
\<close>

theorem timer_flush_defers_wrap:
  "(let s3 = run demo_rt
               [Log demo_clock demo_clock ''info'' (Prim ''a''),
                Tick,
                Log demo_clock demo_clock ''info'' (Prim ''b'')]
               (demo_logger 2 False ProcessStdout)
    in index s3 = Num 1 \<and>
       buffer s3 =
         [Some (''[2024-01-01T00:00:00.000Z] '' @ esc @ ''[32m[INFO] HTTPRequest'' @ esc @ ''[0m: b''),
          None] \<and>
       chunks (stdout s3) =
         [''[2024-01-01T00:00:00.000Z] '' @ esc @ ''[32m[INFO] HTTPRequest'' @ esc @ ''[0m: a'' @ nl])"
proof -
  define la where "la = ''[2024-01-01T00:00:00.000Z] '' @ esc @ ''[32m[INFO] HTTPRequest'' @ esc @ ''[0m: a''"
  define s1 where "s1 = snd (log demo_rt demo_clock demo_clock ''info'' (Prim ''a'')
                               (demo_logger 2 False ProcessStdout))"
  define s2 where "s2 = flushLoop s1"
  define s3 where "s3 = snd (log demo_rt demo_clock demo_clock ''info'' (Prim ''b'') s2)"
  have f1: "\<not> isClosed s1" "index s1 = Num 1" "buffer s1 = [Some la, None]"
    "stdout s1 = new_stream" "writeStream s1 = ProcessStdout" "\<not> isFlushing s1" "bufferSize s1 = 2"
    "\<not> inmediate s1" "source s1 = ''HTTPRequest''" "\<not> highResTimestamps s1"
    "map_of (fileStreams s1) ''info'' \<noteq> None"
    using demo_info_buffered [of "''a''" ProcessStdout]
    by (simp_all add: s1_def la_def info_def) (simp_all add: demo_logger_def)
  have "la \<noteq> []" by (simp add: la_def)
  then have "flush_loop 0 (length [la] + 1) (map Some [la] @ replicate 1 None) [] =
      (replicate (length [la] + 1) None, [la])"
    by (intro flush_loop_full) simp
  then have l: "flush_loop 0 (bufferSize s1) (buffer s1) [] = ([None, None], [la])"
    by (simp add: f1 numeral_2_eq_2)
  have s2: "s2 = write_console (la @ nl) (s1\<lparr>buffer := [None, None], index := Num 0\<rparr>)"
    using flush_effect [OF f1(6) f1(1) l] f1(1,2,6) by (simp add: s2_def flushLoop_def positive_def)
  have f2: "\<not> isClosed s2" "\<not> inmediate s2" "index s2 = Num 0" "Suc 0 < bufferSize s2"
    "0 < length (buffer s2)" "buffer s2 = [None, None]" "chunks (stdout s2) = [la @ nl]"
    "source s2 = ''HTTPRequest''" "\<not> highResTimestamps s2"
    using f1 by (simp_all add: s2 write_console_def write_stream_def new_stream_def)
  from log_buffered_state [OF f2(1,2) _ _ demo_formats f2(3,4,5), of "''info''" demo_clock demo_clock "''b''"]
  obtain fs where
    "s3 = s2\<lparr>buffer := (buffer s2)[0 := Some (console_variant demo_rt s2 demo_clock ''info'' (Prim ''b''))],
             index := Num (Suc 0), fileStreams := fs\<rparr>"
    unfolding s3_def by auto
  moreover have "console_variant demo_rt s2 demo_clock ''info'' (Prim ''b'') =
      console_variant demo_rt (demo_logger 2 False ProcessStdout) demo_clock ''info'' (Prim ''b'')"
    by (rule variant_cong) (simp_all add: f2 demo_logger_def)
  ultimately have "index s3 = Num 1 \<and>
       buffer s3 =
         [Some (''[2024-01-01T00:00:00.000Z] '' @ esc @ ''[32m[INFO] HTTPRequest'' @ esc @ ''[0m: b''),
          None] \<and>
       chunks (stdout s3) = [la @ nl]"
    by (simp add: f2 demo_info_line)
  moreover have "run demo_rt
               [Log demo_clock demo_clock ''info'' (Prim ''a''),
                Tick,
                Log demo_clock demo_clock ''info'' (Prim ''b'')]
               (demo_logger 2 False ProcessStdout) = s3"
    by (simp add: run_def s3_def s2_def s1_def)
  ultimately show ?thesis
    by (simp add: la_def)
qed

subsection \<open>Buffered entries are flushed in call order\<close>

text \<open>
  C5: on an active logger in buffered mode with an empty buffer, after N \<open>info\<close> calls
  with N below the buffer size and no flush in between, the buffer holds the N console
  lines front to back in call order and the console sink has received nothing; a
  \<open>flush\<close> then writes them as one chunk, joined by newlines and ended by one (no chunk
  at all when N is 0), empties every slot and resets the index to 0. Each call wrote its
  file line to the \<open>info\<close> file sink when it was made: after the first k calls the
  sink holds the first k file lines in call order, and the flush does not touch it.
\<close>

theorem buffered_infos_flush_in_order:
  assumes "active s" and "empty_buffer s" and "\<not> inmediate s" and "length cs < bufferSize s"
    and "\<forall>(c1, c2, level, message) \<in> set cs. level = ''info'' \<and> formats rt message"
  shows "buffer (run rt (log_calls cs) s) =
           map Some (console_lines rt s cs) @ replicate (bufferSize s - length cs) None \<and>
         chunks (console (run rt (log_calls cs) s)) = chunks (console s) \<and>
         chunks (console (flush (run rt (log_calls cs) s))) =
           chunks (console s) @ (if cs = [] then [] else [join nl (console_lines rt s cs) @ nl]) \<and>
         buffer (flush (run rt (log_calls cs) s)) = replicate (bufferSize s) None \<and>
         index (flush (run rt (log_calls cs) s)) = Num 0 \<and>
         (\<forall>k \<le> length cs.
            file_chunks (run rt (log_calls (take k cs)) s) ''info'' =
              file_chunks s ''info'' @ file_lines rt s (take k cs)) \<and>
         file_chunks (flush (run rt (log_calls cs) s)) ''info'' =
           file_chunks s ''info'' @ file_lines rt s cs"
proof -
  let ?n = "bufferSize s"
  let ?L = "console_lines rt s cs"
  let ?s' = "run rt (log_calls cs) s"
  from assms(1,2) have st: "\<not> isClosed s" "\<not> isFlushing s" "index s = Num 0"
    "buffer s = replicate ?n None"
    by (simp_all add: active_def empty_buffer_def)
  from assms(5) have all: "\<forall>(c1, c2, level, message) \<in> set cs.
      level \<noteq> ''warn'' \<and> level \<noteq> ''error'' \<and> formats rt message"
    by auto
  from run_buffered [OF st(1) assms(3) st(3,4) all assms(4)] obtain fs where
    r: "?s' = s\<lparr>buffer := map Some ?L @ replicate (?n - length cs) None,
                 index := Num (length cs), fileStreams := fs\<rparr>"
    by blast
  have b: "buffer ?s' = map Some ?L @ replicate (?n - length cs) None"
    by (simp add: r)
  have "console ?s' = console s"
    by (rule console_cong) (simp_all add: r)
  then have c: "chunks (console ?s') = chunks (console s)"
    by simp
  have ne: "\<forall>t \<in> set ?L. t \<noteq> []"
    using assms(5) by (auto simp: console_lines_def console_variant_nonempty)
  have len: "length ?L + (?n - length cs) = ?n"
    using assms(4) by (simp add: console_lines_def)
  from flush_loop_full [OF ne, of "?n - length cs"] have
    loop: "flush_loop 0 (bufferSize ?s') (buffer ?s') [] = (replicate ?n None, ?L)"
    by (simp add: len b) (simp add: r)
  have x: "\<not> isFlushing ?s'" "\<not> isClosed ?s'"
    using st(1,2) by (simp_all add: r)
  let ?e = "?s'\<lparr>buffer := replicate ?n None, index := Num 0\<rparr>"
  have fl: "flush ?s' = (if ?L \<noteq> [] then write_console (join nl ?L @ nl) ?e else ?e)"
    by (rule flush_effect [OF x loop])
  have ce: "console ?e = console s"
    by (rule console_cong) (simp_all add: r)
  have ende: "\<not> ended (console ?e)"
    using active_console [OF assms(1)] by (simp add: ce)
  have f1: "chunks (console (flush ?s')) =
      chunks (console s) @ (if cs = [] then [] else [join nl ?L @ nl])"
  proof (cases "cs = []")
    case True
    then have "?L = []" by (simp add: console_lines_def)
    then have "chunks (console (flush ?s')) = chunks (console s)"
      by (simp add: fl ce)
    with True show ?thesis by simp
  next
    case False
    then have "?L \<noteq> []" by (simp add: console_lines_def)
    with False show ?thesis
      by (simp add: fl console_write_console [OF ende] ce)
  qed
  have f2: "buffer (flush ?s') = replicate ?n None" "index (flush ?s') = Num 0"
    by (simp_all add: fl write_console_fields)
  from active_info_stream [OF assms(1)] obtain sti where
    i: "map_of (fileStreams s) ''info'' = Some sti" "\<not> ended sti"
    by blast
  have files: "file_chunks (run rt (log_calls cs') s) ''info'' =
      file_chunks s ''info'' @ file_lines rt s cs'"
    if "\<forall>(c1, c2, level, message) \<in> set cs'. level = ''info'' \<and> formats rt message" for cs'
    using run_info_files [OF st(1) i that] by (simp add: file_chunks_def i(1))
  have f3: "\<forall>k \<le> length cs.
      file_chunks (run rt (log_calls (take k cs)) s) ''info'' =
        file_chunks s ''info'' @ file_lines rt s (take k cs)"
    using files take_calls [OF assms(5)] by blast
  have f4: "file_chunks (flush ?s') ''info'' = file_chunks s ''info'' @ file_lines rt s cs"
    using files [OF assms(5)] by (simp add: file_chunks_def fileStreams_flush)
  from b c f1 f2 f3 f4 show ?thesis by simp
qed

theorem buffered_infos_flush_in_order_witness:
  "(let s2 = snd (info demo_rt demo_clock demo_clock (Prim ''b'')
                (snd (info demo_rt demo_clock demo_clock (Prim ''a'')
                   (demo_logger 3 False ProcessStdout))))
    in buffer s2 =
         [Some (''[2024-01-01T00:00:00.000Z] '' @ esc @ ''[32m[INFO] HTTPRequest'' @ esc @ ''[0m: a''),
          Some (''[2024-01-01T00:00:00.000Z] '' @ esc @ ''[32m[INFO] HTTPRequest'' @ esc @ ''[0m: b''),
          None] \<and>
       chunks (stdout s2) = [] \<and>
       chunks (stdout (flush s2)) =
         [''[2024-01-01T00:00:00.000Z] '' @ esc @ ''[32m[INFO] HTTPRequest'' @ esc @ ''[0m: a'' @ nl @
          ''[2024-01-01T00:00:00.000Z] '' @ esc @ ''[32m[INFO] HTTPRequest'' @ esc @ ''[0m: b'' @ nl] \<and>
       buffer (flush s2) = [None, None, None] \<and>
       index (flush s2) = Num 0 \<and>
       file_chunks s2 ''info'' =
         [''[2024-01-01T00:00:00.000Z] [INFO] HTTPRequest: a'' @ nl,
          ''[2024-01-01T00:00:00.000Z] [INFO] HTTPRequest: b'' @ nl] \<and>
       file_chunks (flush s2) ''info'' =
         [''[2024-01-01T00:00:00.000Z] [INFO] HTTPRequest: a'' @ nl,
          ''[2024-01-01T00:00:00.000Z] [INFO] HTTPRequest: b'' @ nl])"
proof -
  define s where "s = demo_logger 3 False ProcessStdout"
  define s2 where "s2 = snd (info demo_rt demo_clock demo_clock (Prim ''b'')
                (snd (info demo_rt demo_clock demo_clock (Prim ''a'') s)))"
  define cs where
    "cs = [(demo_clock, demo_clock, ''info'', Prim ''a''), (demo_clock, demo_clock, ''info'', Prim ''b'')]"
  have h: "active s" "empty_buffer s" "\<not> inmediate s" "length cs < bufferSize s"
    "\<forall>(c1, c2, level, message) \<in> set cs. level = ''info'' \<and> formats demo_rt message"
    by (simp_all add: s_def cs_def demo_active demo_empty demo_formats) (simp_all add: demo_logger_def)
  have r: "run demo_rt (log_calls cs) s = s2"
    by (simp add: run_def log_calls_def info_def cs_def s2_def)
  have t: "take 2 cs = cs" "(2::nat) \<le> length cs" "cs \<noteq> []"
    by (simp_all add: cs_def)
  have l: "join nl (console_lines demo_rt s cs) @ nl =
     ''[2024-01-01T00:00:00.000Z] '' @ esc @ ''[32m[INFO] HTTPRequest'' @ esc @ ''[0m: a'' @ nl @
     ''[2024-01-01T00:00:00.000Z] '' @ esc @ ''[32m[INFO] HTTPRequest'' @ esc @ ''[0m: b'' @ nl"
    "map Some (console_lines demo_rt s cs) @ replicate (bufferSize s - length cs) None =
       [Some (''[2024-01-01T00:00:00.000Z] '' @ esc @ ''[32m[INFO] HTTPRequest'' @ esc @ ''[0m: a''),
        Some (''[2024-01-01T00:00:00.000Z] '' @ esc @ ''[32m[INFO] HTTPRequest'' @ esc @ ''[0m: b''),
        None]"
    "file_lines demo_rt s cs =
       [''[2024-01-01T00:00:00.000Z] [INFO] HTTPRequest: a'' @ nl,
        ''[2024-01-01T00:00:00.000Z] [INFO] HTTPRequest: b'' @ nl]"
    by (simp_all add: console_lines_def file_lines_def demo_info_line demo_info_file_line cs_def s_def)
       (simp add: demo_logger_def)
  have w: "console s2 = stdout s2" "console (flush s2) = stdout (flush s2)" "chunks (console s) = []"
    "file_chunks s ''info'' = []" "replicate (bufferSize s) None = [None, None, None]"
    by (simp_all add: console_def s2_def info_def log_config flush_config)
       (simp_all add: s_def demo_logger_def new_stream_def numeral_3_eq_3 file_chunks_def
          initializeStreams_def)
  from buffered_infos_flush_in_order [OF h] t(2) have
    "buffer s2 =
         [Some (''[2024-01-01T00:00:00.000Z] '' @ esc @ ''[32m[INFO] HTTPRequest'' @ esc @ ''[0m: a''),
          Some (''[2024-01-01T00:00:00.000Z] '' @ esc @ ''[32m[INFO] HTTPRequest'' @ esc @ ''[0m: b''),
          None] \<and>
       chunks (stdout s2) = [] \<and>
       chunks (stdout (flush s2)) =
         [''[2024-01-01T00:00:00.000Z] '' @ esc @ ''[32m[INFO] HTTPRequest'' @ esc @ ''[0m: a'' @ nl @
          ''[2024-01-01T00:00:00.000Z] '' @ esc @ ''[32m[INFO] HTTPRequest'' @ esc @ ''[0m: b'' @ nl] \<and>
       buffer (flush s2) = [None, None, None] \<and>
       index (flush s2) = Num 0 \<and>
       file_chunks s2 ''info'' =
         [''[2024-01-01T00:00:00.000Z] [INFO] HTTPRequest: a'' @ nl,
          ''[2024-01-01T00:00:00.000Z] [INFO] HTTPRequest: b'' @ nl] \<and>
       file_chunks (flush s2) ''info'' =
         [''[2024-01-01T00:00:00.000Z] [INFO] HTTPRequest: a'' @ nl,
          ''[2024-01-01T00:00:00.000Z] [INFO] HTTPRequest: b'' @ nl]"
    unfolding r l w using t(1,3) r by (auto simp: l w)
  then show ?thesis
    unfolding Let_def s2_def s_def .
qed

subsection \<open>Formatting a collection that contains itself\<close>

text \<open>
  C6: formatting should return a text for every value and never raise. For a
  \<^verbatim>\<open>Map\<close> that holds itself as a value, and for a \<^verbatim>\<open>Set\<close> that holds
  itself, it raises whatever depth the stack allows: the recursion through
  \<open>formatMap\<close> and \<open>formatSet\<close> has no cycle check, only the plain-object branch
  has one.
\<close>

theorem cyclic_collection_overflows:
  "formatValue depth demo_heap js (Ref 0) = Inl StackOverflow \<and>
   formatValue depth demo_heap js (Ref 1) = Inl StackOverflow"
proof (induction depth)
  case 0
  show ?case by simp
next
  case (Suc d)
  have "formatValue d demo_heap js (Prim ''self'') = Inl StackOverflow \<or>
        formatValue d demo_heap js (Prim ''self'') = Inr ''self''"
    by (cases d) simp_all
  with Suc show ?case
    by (auto simp: demo_heap_cells formatMap_def formatSet_def)
qed

subsection \<open>The caller's class\<close>

text \<open>
  C7, as amended: when no frame survives the filters, \<open>getCallerClass\<close> returns
  \<open>Unknown\<close>. Otherwise it answers from a surviving frame with the smallest line number
  (of several, the first in the reversed order), and returns from that frame's identifier
  the segment before the first dot, split at the space character (no other white space
  separates), with the first token dropped when there is more than one. The frames that survive are \<open>named\<close>: those of the captured stack, parsed,
  without its first frame and reversed (\<open>parsed\<close>), whose path starts with the project
  root and has no \<open>node_modules\<close> in it, and whose identifier has no
  \<open><anonymous>\<close> in it and does not start with \<open>Object.\<close> or \<open>Module.\<close>.
\<close>

theorem getCallerClass_selection:
  "(named cwd stackText = [] \<longrightarrow> getCallerClass cwd stackText = ''Unknown'') \<and>
   (named cwd stackText \<noteq> [] \<longrightarrow>
      (\<exists>pre f post.
          named cwd stackText = pre @ f # post \<and>
          (\<forall>g \<in> set pre. line f < line g) \<and>
          (\<forall>g \<in> set post. line f \<le> line g) \<and>
          getCallerClass cwd stackText = space_bare_identifier (identifier' f))) \<and>
   set (named cwd stackText) =
     {f \<in> set (parsed stackText).
        startsWith (path f) cwd \<and> \<not> str_includes (path f) ''node_modules'' \<and>
        \<not> str_includes (identifier' f) ''<anonymous>'' \<and>
        \<not> startsWith (identifier' f) ''Object.'' \<and>
        \<not> startsWith (identifier' f) ''Module.''}"
proof (intro conjI impI)
  show "set (named cwd stackText) =
     {f \<in> set (parsed stackText).
        startsWith (path f) cwd \<and> \<not> str_includes (path f) ''node_modules'' \<and>
        \<not> str_includes (identifier' f) ''<anonymous>'' \<and>
        \<not> startsWith (identifier' f) ''Object.'' \<and>
        \<not> startsWith (identifier' f) ''Module.''}"
    by (auto simp: named_def)
next
  assume "named cwd stackText = []"
  then show "getCallerClass cwd stackText = ''Unknown''"
    by (simp add: getCallerClass_def)
next
  assume ne: "named cwd stackText \<noteq> []"
  let ?h = "hd (sort_key line (named cwd stackText))"
  from ne have "sort_key line (named cwd stackText) \<noteq> []"
    by (metis length_0_conv length_sort)
  then have r: "getCallerClass cwd stackText = space_bare_identifier (identifier' ?h)"
    by (cases "sort_key line (named cwd stackText)") (simp_all add: getCallerClass_def className_space)
  from sort_key_first_min [OF ne, of line] obtain pre post where
    "named cwd stackText = pre @ ?h # post" "\<forall>g \<in> set pre. line ?h < line g"
    "\<forall>g \<in> set post. line ?h \<le> line g"
    by blast
  with r show "\<exists>pre f post.
          named cwd stackText = pre @ f # post \<and>
          (\<forall>g \<in> set pre. line f < line g) \<and>
          (\<forall>g \<in> set post. line f \<le> line g) \<and>
          getCallerClass cwd stackText = space_bare_identifier (identifier' f)"
    by blast
qed

theorem getCallerClass_selection_witness:
  "getCallerClass ''/proj'' demo_stack = ''HTTPRequest'' \<and>
   getCallerClass ''/proj''
     (''Error'' @ nl @ ''    at Logger.getCallerClass (/proj/src/SourceClass.ts:18:11)'' @ nl @
      ''    at /proj/src/main.ts:3:13'') = ''Unknown''"
proof
  let ?f1 = "\<lparr>identifier' = ''new HTTPRequest'', path = ''/proj/src/HTTPRequest.ts'', line = 30\<rparr>"
  let ?f2 = "\<lparr>identifier' = ''new Logger'', path = ''/proj/src/Logger.ts'', line = 56\<rparr>"
  from getCallerClass_selection [of "''/proj''" demo_stack, THEN conjunct2, THEN conjunct1]
  obtain pre f post where
    p: "[?f1, ?f2] = pre @ f # post" "\<forall>g \<in> set pre. line f < line g"
      "\<forall>g \<in> set post. line f \<le> line g"
      "getCallerClass ''/proj'' demo_stack = space_bare_identifier (identifier' f)"
    unfolding demo_named by auto
  have "f = ?f1"
  proof (cases pre)
    case Nil
    with p(1) show ?thesis by simp
  next
    case (Cons a as)
    with p(1) have "a = ?f1" "as @ f # post = [?f2]" by simp_all
    then have "f = ?f2" by (cases as) simp_all
    with Cons \<open>a = ?f1\<close> p(2) show ?thesis by simp
  qed
  with p(4) show "getCallerClass ''/proj'' demo_stack = ''HTTPRequest''"
    by (simp add: demo_bare)
next
  from getCallerClass_selection
    [of "''/proj''" "''Error'' @ nl @ ''    at Logger.getCallerClass (/proj/src/SourceClass.ts:18:11)'' @ nl @
      ''    at /proj/src/main.ts:3:13''", THEN conjunct1]
  show "getCallerClass ''/proj''
     (''Error'' @ nl @ ''    at Logger.getCallerClass (/proj/src/SourceClass.ts:18:11)'' @ nl @
      ''    at /proj/src/main.ts:3:13'') = ''Unknown''"
    unfolding demo_named_empty by simp
qed

text \<open>
  With a split on white space the answer for the frame \<open>my<TAB>handler\<close> would be
  \<open>handler\<close>; \<open>getCallerClass\<close> splits at the space character and returns the
  identifier whole.
\<close>

theorem getCallerClass_tab_not_split:
  "named ''/proj'' tab_stack =
     [\<lparr>identifier' = ''my'' @ [CHR 0x09] @ ''handler'', path = ''/proj/src/main.ts'', line = 3\<rparr>] \<and>
   getCallerClass ''/proj'' tab_stack = ''my'' @ [CHR 0x09] @ ''handler'' \<and>
   spec_bare_identifier (''my'' @ [CHR 0x09] @ ''handler'') = ''handler'' \<and>
   getCallerClass ''/proj'' tab_stack \<noteq> spec_bare_identifier (''my'' @ [CHR 0x09] @ ''handler'')"
proof -
  have n: "named ''/proj'' tab_stack =
     [\<lparr>identifier' = ''my'' @ [CHR 0x09] @ ''handler'', path = ''/proj/src/main.ts'', line = 3\<rparr>]"
    by code_simp
  have g: "getCallerClass ''/proj'' tab_stack = ''my'' @ [CHR 0x09] @ ''handler''"
    by code_simp
  have b: "spec_bare_identifier (''my'' @ [CHR 0x09] @ ''handler'') = ''handler''"
    by (simp add: spec_bare_identifier_def is_space_def)
  from n g b show ?thesis
    by simp
qed

subsection \<open>The write index\<close>

text \<open>
  C8, as amended: for every logger constructed with a buffer size of at least 1, after
  every sequence of \<open>log\<close>, \<open>flush\<close> and \<open>close\<close> calls and timer firings, the write
  index is a number with \<open>0 \<le> index < bufferSize\<close>.
\<close>

theorem index_stays_in_range:
  assumes "Logger cwd stackText opts = Inr s0" and "0 < bufferSize s0"
  shows "index_in_range (run rt ops s0)"
proof -
  from assms have "index_in_range s0"
    by (simp add: index_in_range_def new_logger_fields)
  with assms(2) show ?thesis
    by (simp add: run_keeps_range)
qed

theorem index_stays_in_range_witness:
  "index_in_range
     (run demo_rt
        [Log demo_clock demo_clock ''info'' (Prim ''a''),
         Log demo_clock demo_clock ''info'' (Prim ''b''),
         Log demo_clock demo_clock ''debug'' (Prim ''c''),
         Tick, Flush,
         Log demo_clock demo_clock ''warn'' (Prim ''d''),
         Close,
         Log demo_clock demo_clock ''info'' (Prim ''e'')]
        (demo_logger 2 False ProcessStdout))"
proof -
  have "Logger ''/proj'' demo_stack (demo_options 2 False ProcessStdout) =
          Inr (demo_logger (nat 2) False ProcessStdout)"
    by (rule demo_new) simp_all
  then have a: "Logger ''/proj'' demo_stack (demo_options 2 False ProcessStdout) =
          Inr (demo_logger 2 False ProcessStdout)"
    by simp
  have b: "0 < bufferSize (demo_logger 2 False ProcessStdout)"
    by (simp add: demo_logger_def)
  show ?thesis
    by (rule index_stays_in_range [OF a b])
qed

text \<open>
  With the buffer size 0, which the constructor accepts, no index is in range: the new
  logger's index 0 is not below 0, and the first buffered call makes it \<open>NaN\<close>.
\<close>

theorem index_out_of_range_at_size_zero:
  "Logger ''/proj'' demo_stack (demo_options 0 False ProcessStdout) =
     Inr (demo_logger 0 False ProcessStdout) \<and>
   \<not> index_in_range (run demo_rt [] (demo_logger 0 False ProcessStdout)) \<and>
   index (run demo_rt [Log demo_clock demo_clock ''info'' (Prim ''a'')]
            (demo_logger 0 False ProcessStdout)) = NaN \<and>
   \<not> index_in_range (run demo_rt [Log demo_clock demo_clock ''info'' (Prim ''a'')]
                       (demo_logger 0 False ProcessStdout))"
proof -
  have "Logger ''/proj'' demo_stack (demo_options 0 False ProcessStdout) =
          Inr (demo_logger (nat 0) False ProcessStdout)"
    by (rule demo_new) simp_all
  then have a: "Logger ''/proj'' demo_stack (demo_options 0 False ProcessStdout) =
          Inr (demo_logger 0 False ProcessStdout)"
    by simp
  have b: "\<not> index_in_range (demo_logger 0 False ProcessStdout)"
    by (simp add: index_in_range_def demo_logger_def)
  have c: "index (snd (log demo_rt demo_clock demo_clock ''info'' (Prim ''a'')
                         (demo_logger 0 False ProcessStdout))) = NaN"
    by (rule log_size_zero [OF _ _ _ _ demo_formats, of _ _ 0]) (simp_all add: demo_logger_def)
  from a b c show ?thesis
    by (simp add: run_def index_in_range_def)
qed

subsection \<open>The console line\<close>

text \<open>
  C9, as amended: for each of the four severities the console variant is
  \<open>[timestamp] <color>[SEVERITY] sourceLabel<reset>: message\<close>. The colour of the
  severity stays on over the tag and the source label, and the formatter emits one
  reset, after the source label.
\<close>

theorem console_line_shape:
  assumes "formatValue (stackDepth rt) (heap rt) (stringify rt) message = Inr text"
  shows "formatMessage rt s clk ''info'' message True =
           Inr (''['' @ timestamp s clk @ ''] '' @ esc @ ''[32m[INFO] '' @ source s @
                esc @ ''[0m: '' @ text) \<and>
         formatMessage rt s clk ''warn'' message True =
           Inr (''['' @ timestamp s clk @ ''] '' @ esc @ ''[33m[WARN] '' @ source s @
                esc @ ''[0m: '' @ text) \<and>
         formatMessage rt s clk ''error'' message True =
           Inr (''['' @ timestamp s clk @ ''] '' @ esc @ ''[31m[ERROR] '' @ source s @
                esc @ ''[0m: '' @ text) \<and>
         formatMessage rt s clk ''debug'' message True =
           Inr (''['' @ timestamp s clk @ ''] '' @ esc @ ''[34m[DEBUG] '' @ source s @
                esc @ ''[0m: '' @ text)"
  by (simp add: formatMessage_console [OF assms] color_known upper_known reset_def)

theorem console_line_shape_witness:
  "formatMessage demo_rt (demo_logger 2 True ProcessStdout) demo_clock ''error'' (Prim ''Test'') True =
     Inr (''[2024-01-01T00:00:00.000Z] '' @ esc @ ''[31m[ERROR] HTTPRequest'' @ esc @ ''[0m: Test'')"
  using console_line_shape
    [OF demo_format, of "demo_logger 2 True ProcessStdout" demo_clock "''Test''"]
  by (simp add: demo_timestamp) (simp add: demo_logger_def)

text \<open>
  The line the specification words has two resets; the formatter's line for an error
  with the message \<open>Test\<close> has one, and is a different text.
\<close>

theorem console_line_single_reset:
  "console_variant demo_rt (demo_logger 2 True ProcessStdout) demo_clock ''error'' (Prim ''Test'') \<noteq>
     spec_console_line (isoString demo_clock) ''error''
       (source (demo_logger 2 True ProcessStdout)) ''Test'' \<and>
   occurrences
     (console_variant demo_rt (demo_logger 2 True ProcessStdout) demo_clock ''error'' (Prim ''Test''))
     reset = 1 \<and>
   occurrences
     (spec_console_line (isoString demo_clock) ''error''
        (source (demo_logger 2 True ProcessStdout)) ''Test'')
     reset = 2"
proof -
  have v: "console_variant demo_rt (demo_logger 2 True ProcessStdout) demo_clock ''error'' (Prim ''Test'')
      = ''[2024-01-01T00:00:00.000Z] '' @ esc @ ''[31m[ERROR] HTTPRequest'' @ esc @ ''[0m: Test''"
    by (simp add: console_variant_def formatMessage_console [OF demo_format] color_known
        upper_known reset_def demo_timestamp) (simp add: demo_logger_def)
  have w: "spec_console_line (isoString demo_clock) ''error''
             (source (demo_logger 2 True ProcessStdout)) ''Test''
      = ''[2024-01-01T00:00:00.000Z] '' @ esc @ ''[31m[ERROR]'' @ esc @ ''[0m HTTPRequest'' @
        esc @ ''[0m: Test''"
    by (simp add: spec_console_line_def color_of_def color_known upper_known reset_def
        demo_logger_def demo_clock_def)
  show ?thesis
    unfolding v w by (simp add: esc_def reset_def startsWith_def)
qed

subsection \<open>A level without a file sink\<close>

text \<open>
  C10: on a constructed logger that is not closed, whatever was done with it before, a
  call of \<open>log\<close> with a level other than \<open>info\<close>, \<open>warn\<close>, \<open>error\<close> and
  \<open>debug\<close> does not return: when the message formats, the lookup of the file sink
  finds no stream and the call throws a \<^verbatim>\<open>TypeError\<close> (when it does not, the
  formatter's exception comes first). In immediate mode the console line has been
  written to \<^verbatim>\<open>process.stdout\<close> by then and stays written, and nothing else
  of the logger has changed.
\<close>

theorem unknown_level_throws:
  assumes "Logger cwd stackText opts = Inr s0" and "s = run rt0 ops s0" and "\<not> isClosed s"
    and "level \<notin> {''info'', ''warn'', ''error'', ''debug''}"
  shows "fst (log rt c1 c2 level message s) =
           (case formatValue (stackDepth rt) (heap rt) (stringify rt) message of
              Inl e \<Rightarrow> Inl e
            | Inr t \<Rightarrow> Inl TypeError) \<and>
         (inmediate s \<and> formats rt message \<longrightarrow>
            snd (log rt c1 c2 level message s) =
              s\<lparr>stdout := (stdout s)\<lparr>chunks :=
                   chunks (stdout s) @ [console_variant rt s c1 level message @ nl]\<rparr>\<rparr>)"
proof -
  from constructed_active [OF assms(1), of rt0 ops] assms(2,3) have a: "active s"
    by simp
  then have k: "map fst (fileStreams s) = map fst initializeStreams" and e: "\<not> ended (stdout s)"
    by (simp_all add: active_def)
  have absent: "map_of (fileStreams s) level = None"
    using k assms(4) by (intro map_of_absent) (auto simp: initializeStreams_def)
  show ?thesis
    using assms(3) absent e
    by (auto simp: log_def formatMessage_def Let_def formats_def console_variant_def
        fileStreams_flush write_stream_def split: sum.splits)
qed

theorem unknown_level_throws_witness:
  "fst (log demo_rt demo_clock demo_clock ''trace'' (Prim ''x'') (demo_logger 2 True ProcessStdout)) =
     Inl TypeError \<and>
   chunks (stdout (snd (log demo_rt demo_clock demo_clock ''trace'' (Prim ''x'')
                          (demo_logger 2 True ProcessStdout)))) =
     [''[2024-01-01T00:00:00.000Z] '' @ reset @ ''[TRACE] HTTPRequest'' @ reset @ '': x'' @ nl]"
proof -
  have "Logger ''/proj'' demo_stack (demo_options 2 True ProcessStdout) =
          Inr (demo_logger (nat 2) True ProcessStdout)"
    by (rule demo_new) simp_all
  then have a: "Logger ''/proj'' demo_stack (demo_options 2 True ProcessStdout) =
          Inr (demo_logger 2 True ProcessStdout)"
    by simp
  have b: "demo_logger 2 True ProcessStdout = run demo_rt [] (demo_logger 2 True ProcessStdout)"
    by (simp add: run_def)
  have c: "\<not> isClosed (demo_logger 2 True ProcessStdout)"
    and d: "''trace'' \<notin> {''info'', ''warn'', ''error'', ''debug''}"
    and e: "inmediate (demo_logger 2 True ProcessStdout)" "formats demo_rt (Prim ''x'')"
      "chunks (stdout (demo_logger 2 True ProcessStdout)) = []"
    by (simp_all add: demo_logger_def demo_formats new_stream_def)
  have v: "console_variant demo_rt (demo_logger 2 True ProcessStdout) demo_clock ''trace'' (Prim ''x'') =
      ''[2024-01-01T00:00:00.000Z] '' @ reset @ ''[TRACE] HTTPRequest'' @ reset @ '': x''"
    by (simp add: console_variant_def formatMessage_console [OF demo_format] demo_timestamp)
       (simp add: colors_def demo_rt_def toUpperCase_def upper_char_def demo_logger_def)
  have "fst (log demo_rt demo_clock demo_clock ''trace'' (Prim ''x'') (demo_logger 2 True ProcessStdout)) =
          Inl TypeError"
    and "chunks (stdout (snd (log demo_rt demo_clock demo_clock ''trace'' (Prim ''x'')
                        (demo_logger 2 True ProcessStdout)))) =
         [console_variant demo_rt (demo_logger 2 True ProcessStdout) demo_clock ''trace'' (Prim ''x'') @ nl]"
    using unknown_level_throws [OF a b c d, of demo_rt demo_clock demo_clock "Prim ''x''"] e
    by (simp_all add: demo_format)
  then show ?thesis
    by (simp add: v)
qed

end
